theory Spec2Isabelle
  imports Complex_Main "HOL-Library.Multiset"
begin

section \<open>JavaScript values used by the coordinator\<close>

text \<open>
  The configuration values are JavaScript numbers. The coordinator only tests them for
  truthiness, compares them with an array length and passes them to \<^verbatim>\<open>splice\<close>; all
  three are exact on doubles, so a finite double is modelled by the real it denotes.
  \<open>Finite 0\<close> stands for both zeros (both are falsy).
\<close>

datatype number = Finite real | PosInfinity | NegInfinity | NaN

text \<open>Truthiness of a number: \<open>0\<close>, \<open>-0\<close> and \<open>NaN\<close> are falsy.\<close>

fun truthy :: "number \<Rightarrow> bool" where
  "truthy (Finite x) = (x \<noteq> 0)"
| "truthy PosInfinity = True"
| "truthy NegInfinity = True"
| "truthy NaN = False"

text \<open>\<^verbatim>\<open>v || d\<close> where \<open>v\<close> is a number or \<^verbatim>\<open>undefined\<close> (\<open>None\<close>).\<close>

fun or_default :: "number option \<Rightarrow> number \<Rightarrow> number" where
  "or_default None d = d"
| "or_default (Some v) d = (if truthy v then v else d)"

text \<open>\<^verbatim>\<open>xs.length >= n\<close> for an array of length \<open>len\<close>.\<close>

fun length_ge :: "nat \<Rightarrow> number \<Rightarrow> bool" where
  "length_ge len (Finite x) = (x \<le> real len)"
| "length_ge len PosInfinity = False"
| "length_ge len NegInfinity = True"
| "length_ge len NaN = False"

text \<open>Truncation toward zero, the finite case of \<^verbatim>\<open>ToIntegerOrInfinity\<close>.\<close>

definition trunc :: "real \<Rightarrow> int" where
  "trunc x = (if x < 0 then - \<lfloor>- x\<rfloor> else \<lfloor>x\<rfloor>)"

text \<open>
  The number of elements \<^verbatim>\<open>xs.splice(0, n)\<close> removes from an array of length \<open>len\<close>:
  \<^verbatim>\<open>min(max(ToIntegerOrInfinity(n), 0), len)\<close>.
\<close>

fun deleteCount :: "number \<Rightarrow> nat \<Rightarrow> nat" where
  "deleteCount (Finite x) len = min (nat (max (trunc x) 0)) len"
| "deleteCount PosInfinity len = len"
| "deleteCount NegInfinity len = 0"
| "deleteCount NaN len = 0"

text \<open>
  Error objects. Every constructor is an instance of \<^verbatim>\<open>Error\<close>; \<open>TypeError\<close> is what
  the engine raises on reading a property of \<^verbatim>\<open>undefined\<close>.
\<close>

datatype Error = Error string | TypeError string

text \<open>A thrown or rejected value: an \<^verbatim>\<open>Error\<close> instance, or any other value.\<close>

datatype thrown = Thrown_Error Error | Thrown_Other

section \<open>The types of \<^verbatim>\<open>types.ts\<close>\<close>

record BatchingConfig =
  batchSize_cfg :: "number option"
  frequencyMs :: "number option"

record 't Job =
  id_job :: string
  payload :: 't

record 'r JobResult =
  id_result :: string
  result :: "'r option"
  error :: "Error option"

text \<open>
  \<^verbatim>\<open>InternalJob\<close> extends \<^verbatim>\<open>Job\<close> with the \<^verbatim>\<open>resolve\<close> function of the promise
  returned to the submitter; the promise is named by a number.
\<close>

record 't InternalJob = "'t Job" +
  resolve :: nat

text \<open>
  How one call of \<^verbatim>\<open>batchProcessor.process\<close> settles: the promise is fulfilled with
  an array of results, or the call throws or its promise is rejected. An array may be
  sparse: each position below its length holds an element (\<open>Some\<close>) or is a hole
  (\<open>None\<close>).
\<close>

datatype 'r settled = Fulfilled "'r option list" | Rejected thrown

section \<open>The coordinator\<close>

text \<open>
  The first five fields are those of the class \<^verbatim>\<open>MicroBatchProcessor\<close>. The others
  are the part of the runtime the class acts on:
  \<^item> \<open>timeouts\<close>: the callbacks scheduled by \<^verbatim>\<open>setTimeout\<close> that have neither fired
    nor been cleared, each with its handle and delay; a handle is an object, so
    \<^verbatim>\<open>!this.batchTimer\<close> holds exactly when \<open>batchTimer\<close> is \<open>None\<close>;
  \<^item> \<open>nextTimeout\<close>: the handle the next \<^verbatim>\<open>setTimeout\<close> returns;
  \<^item> \<open>submitted\<close>: the internal jobs created by \<^verbatim>\<open>submitJob\<close>, in order; the promise
    of the job at position \<open>h\<close> is \<open>h\<close>;
  \<^item> \<open>calls\<close>: the argument of every call of \<^verbatim>\<open>batchProcessor.process\<close>, in order;
  \<^item> \<open>awaiting\<close>: the activations of \<^verbatim>\<open>processBatch\<close> suspended at their
    \<^verbatim>\<open>await\<close>, each with the position of its call in \<open>calls\<close> and its
    \<^verbatim>\<open>jobsToProcess\<close>;
  \<^item> \<open>resolved\<close>: every call of a \<^verbatim>\<open>resolve\<close> function, in order, with its argument;
  \<^item> \<open>shutdownAwaiting\<close>: for every activation of \<^verbatim>\<open>shutdown\<close> suspended at its
    \<^verbatim>\<open>await\<close>, the call it waits for;
  \<^item> \<open>shutdownCompleted\<close>: how many activations of \<^verbatim>\<open>shutdown\<close> have returned.
\<close>

record ('t, 'r) MicroBatchProcessor =
  pendingJobs :: "'t InternalJob list"
  isShuttingDown :: bool
  batchSize :: number
  batchFrequency :: number
  batchTimer :: "nat option"
  timeouts :: "(nat \<times> number) list"
  nextTimeout :: nat
  submitted :: "'t InternalJob list"
  calls :: "'t list list"
  awaiting :: "(nat \<times> 't InternalJob list) list"
  resolved :: "(nat \<times> 'r JobResult) list"
  shutdownAwaiting :: "nat list"
  shutdownCompleted :: nat

text \<open>\<^verbatim>\<open>config?.batchSize\<close> and \<^verbatim>\<open>config?.frequencyMs\<close>.\<close>

fun opt_batchSize :: "BatchingConfig option \<Rightarrow> number option" where
  "opt_batchSize None = None"
| "opt_batchSize (Some config) = batchSize_cfg config"

fun opt_frequencyMs :: "BatchingConfig option \<Rightarrow> number option" where
  "opt_frequencyMs None = None"
| "opt_frequencyMs (Some config) = frequencyMs config"

definition constructor :: "BatchingConfig option \<Rightarrow> ('t, 'r) MicroBatchProcessor" where
  "constructor config =
     \<lparr> pendingJobs = [],
       isShuttingDown = False,
       batchSize = or_default (opt_batchSize config) (Finite 10),
       batchFrequency = or_default (opt_frequencyMs config) (Finite 1000),
       batchTimer = None,
       timeouts = [],
       nextTimeout = 0,
       submitted = [],
       calls = [],
       awaiting = [],
       resolved = [],
       shutdownAwaiting = [],
       shutdownCompleted = 0 \<rparr>"

text \<open>\<^verbatim>\<open>clearTimeout\<close> of a handle that is not scheduled does nothing.\<close>

definition clearBatchTimer ::
  "('t, 'r) MicroBatchProcessor \<Rightarrow> ('t, 'r) MicroBatchProcessor" where
  "clearBatchTimer this =
     (case batchTimer this of
        None \<Rightarrow> this
      | Some t \<Rightarrow> this\<lparr> timeouts := filter (\<lambda>p. fst p \<noteq> t) (timeouts this),
                        batchTimer := None \<rparr>)"

text \<open>
  \<^verbatim>\<open>processBatch\<close> up to its \<^verbatim>\<open>await\<close>: the timer is cleared, the batch is spliced
  off the front of the queue, the processor is called with the payloads and the
  activation is suspended. A call that throws at once is a call that is rejected at once.
\<close>

definition processBatch ::
  "('t, 'r) MicroBatchProcessor \<Rightarrow> ('t, 'r) MicroBatchProcessor" where
  "processBatch this0 =
     (let this = clearBatchTimer this0;
          n = deleteCount (batchSize this) (length (pendingJobs this));
          jobsToProcess = take n (pendingJobs this)
      in this\<lparr> pendingJobs := drop n (pendingJobs this),
               calls := calls this @ [map payload jobsToProcess],
               awaiting := awaiting this @ [(length (calls this), jobsToProcess)] \<rparr>)"

text \<open>
  The message of the \<^verbatim>\<open>TypeError\<close> raised by \<^verbatim>\<open>job.resolve\<close> when \<^verbatim>\<open>job\<close> is
  \<^verbatim>\<open>undefined\<close>; its text depends on the engine.
\<close>

definition undefined_resolve :: Error where
  "undefined_resolve = TypeError ''Cannot read properties of undefined (reading 'resolve')''"

text \<open>\<^verbatim>\<open>error instanceof Error ? error : new Error('Unknown error')\<close>\<close>

fun as_Error :: "thrown \<Rightarrow> Error" where
  "as_Error (Thrown_Error e) = e"
| "as_Error Thrown_Other = Error ''Unknown error''"

definition resolve_result :: "'r \<times> 't InternalJob \<Rightarrow> nat \<times> 'r JobResult" where
  "resolve_result p =
     (resolve (snd p), \<lparr> id_result = id_job (snd p), result = Some (fst p), error = None \<rparr>)"

definition resolve_error :: "Error \<Rightarrow> 't InternalJob \<Rightarrow> nat \<times> 'r JobResult" where
  "resolve_error e job =
     (resolve job, \<lparr> id_result = id_job job, result = None, error = Some e \<rparr>)"

text \<open>
  \<^verbatim>\<open>results.forEach((result, index) => { ... job.resolve({ id: job.id, result }) })\<close>,
  from some index on; the second argument is \<^verbatim>\<open>jobsToProcess\<close> from that index on.
  \<^verbatim>\<open>forEach\<close> goes through the positions of the array in order and skips the holes.
  At an element, \<^verbatim>\<open>jobsToProcess[index]\<close> is read; past the end of \<^verbatim>\<open>jobsToProcess\<close>
  it is \<^verbatim>\<open>undefined\<close>, \<^verbatim>\<open>job.resolve\<close> raises a \<^verbatim>\<open>TypeError\<close> and the loop is
  left. The value is the calls of \<^verbatim>\<open>resolve\<close> made, and whether the error was raised.
\<close>

fun forEach_results ::
  "'r option list \<Rightarrow> 't InternalJob list \<Rightarrow> (nat \<times> 'r JobResult) list \<times> bool" where
  "forEach_results [] jobs = ([], False)"
| "forEach_results (None # results) jobs = forEach_results results (tl jobs)"
| "forEach_results (Some r # results) [] = ([], True)"
| "forEach_results (Some r # results) (job # jobs) =
     (resolve_result (r, job) # fst (forEach_results results jobs),
      snd (forEach_results results jobs))"

text \<open>
  The calls of \<^verbatim>\<open>resolve\<close> made by \<^verbatim>\<open>processBatch\<close> after its \<^verbatim>\<open>await\<close>. The
  \<^verbatim>\<open>TypeError\<close> of the loop is raised inside the \<^verbatim>\<open>try\<close>, so the \<^verbatim>\<open>catch\<close> block
  runs after it, as it does when the call has failed.
\<close>

fun resolutions :: "'t InternalJob list \<Rightarrow> 'r settled \<Rightarrow> (nat \<times> 'r JobResult) list" where
  "resolutions jobsToProcess (Fulfilled results) =
     fst (forEach_results results jobsToProcess) @
     (if snd (forEach_results results jobsToProcess)
      then map (resolve_error undefined_resolve) jobsToProcess else [])"
| "resolutions jobsToProcess (Rejected e) =
     map (resolve_error (as_Error e)) jobsToProcess"

text \<open>
  \<^verbatim>\<open>processBatch\<close> from its \<^verbatim>\<open>await\<close> on, for the activation that made call \<open>c\<close>,
  when that call settles. An activation of \<^verbatim>\<open>shutdown\<close> that awaits this activation
  returns after it.
\<close>

definition processBatch_resume ::
  "nat \<Rightarrow> 'r settled \<Rightarrow> ('t, 'r) MicroBatchProcessor \<Rightarrow> ('t, 'r) MicroBatchProcessor" where
  "processBatch_resume c outcome this =
     (case map_of (awaiting this) c of
        None \<Rightarrow> this
      | Some jobsToProcess \<Rightarrow>
          this\<lparr> awaiting := filter (\<lambda>p. fst p \<noteq> c) (awaiting this),
                resolved := resolved this @ resolutions jobsToProcess outcome,
                shutdownAwaiting := filter (\<lambda>c'. c' \<noteq> c) (shutdownAwaiting this),
                shutdownCompleted :=
                  shutdownCompleted this + length (filter (\<lambda>c'. c' = c) (shutdownAwaiting this)) \<rparr>)"

definition shutdown_message :: string where
  "shutdown_message = ''Cannot submit job - the system is shutting down.''"

text \<open>
  \<^verbatim>\<open>submitJob\<close>: the thrown error, or the promise returned; and the coordinator after
  the call.
\<close>

definition submitJob ::
  "'t Job \<Rightarrow> ('t, 'r) MicroBatchProcessor \<Rightarrow> (Error + nat) \<times> ('t, 'r) MicroBatchProcessor" where
  "submitJob job this0 =
     (if isShuttingDown this0 then (Inl (Error shutdown_message), this0)
      else
        let h = length (submitted this0);
            internalJob = \<lparr> id_job = id_job job, payload = payload job, resolve = h \<rparr>;
            this = this0\<lparr> pendingJobs := pendingJobs this0 @ [internalJob],
                          submitted := submitted this0 @ [internalJob] \<rparr>
        in if length_ge (length (pendingJobs this)) (batchSize this)
           then (Inr h, processBatch this)
           else if batchTimer this = None
           then (Inr h, this\<lparr> batchTimer := Some (nextTimeout this),
                               timeouts := timeouts this @ [(nextTimeout this, batchFrequency this)],
                               nextTimeout := Suc (nextTimeout this) \<rparr>)
           else (Inr h, this))"

text \<open>
  \<^verbatim>\<open>shutdown\<close> up to its \<^verbatim>\<open>await\<close>, or to its end when nothing is pending.
\<close>

definition shutdown ::
  "('t, 'r) MicroBatchProcessor \<Rightarrow> ('t, 'r) MicroBatchProcessor" where
  "shutdown this0 =
     (let this = clearBatchTimer (this0\<lparr> isShuttingDown := True \<rparr>)
      in if 0 < length (pendingJobs this)
         then (processBatch this)\<lparr> shutdownAwaiting := shutdownAwaiting this @ [length (calls this)] \<rparr>
         else this\<lparr> shutdownCompleted := Suc (shutdownCompleted this) \<rparr>)"

section \<open>Runs of the coordinator\<close>

text \<open>
  What can happen to a coordinator: a caller submits a job or calls \<^verbatim>\<open>shutdown\<close>, a
  scheduled timeout fires and runs its callback \<^verbatim>\<open>() => this.processBatch()\<close>, or a
  call of the processor settles and the suspended \<^verbatim>\<open>processBatch\<close> continues.
\<close>

datatype ('t, 'r) event =
    Submit "'t Job"
  | Shutdown
  | TimerFires nat
  | Settles nat "'r settled"

fun step ::
  "('t, 'r) MicroBatchProcessor \<Rightarrow> ('t, 'r) event \<Rightarrow> ('t, 'r) MicroBatchProcessor" where
  "step this (Submit job) = snd (submitJob job this)"
| "step this Shutdown = shutdown this"
| "step this (TimerFires t) =
     (if t \<in> fst ` set (timeouts this)
      then processBatch (this\<lparr> timeouts := filter (\<lambda>p. fst p \<noteq> t) (timeouts this) \<rparr>)
      else this)"
| "step this (Settles c outcome) = processBatch_resume c outcome this"

definition run ::
  "('t, 'r) MicroBatchProcessor \<Rightarrow> ('t, 'r) event list \<Rightarrow> ('t, 'r) MicroBatchProcessor" where
  "run this es = foldl step this es"

text \<open>
  The contract of the processor, for one event: a fulfilled call returns one result for
  every payload it was given, that is an array of the same length without holes.
\<close>

fun honours :: "('t, 'r) MicroBatchProcessor \<Rightarrow> ('t, 'r) event \<Rightarrow> bool" where
  "honours this (Settles c (Fulfilled results)) =
     (case map_of (awaiting this) c of
        None \<Rightarrow> True
      | Some jobsToProcess \<Rightarrow> length results = length jobsToProcess \<and> None \<notin> set results)"
| "honours this e = True"

fun honoured :: "('t, 'r) MicroBatchProcessor \<Rightarrow> ('t, 'r) event list \<Rightarrow> bool" where
  "honoured this [] = True"
| "honoured this (e # es) = (honours this e \<and> honoured (step this e) es)"

section \<open>Notions used in the statements\<close>

text \<open>
  The jobs that have been extracted from the queue and whose call of the processor has
  not settled yet, oldest batch first.
\<close>

definition in_flight :: "('t, 'r) MicroBatchProcessor \<Rightarrow> 't InternalJob list" where
  "in_flight this = concat (map snd (awaiting this))"

text \<open>
  Batch sizes. The constructor accepts every truthy number; the documentation asks for a
  positive integer.
\<close>

fun at_least_one :: "number \<Rightarrow> bool" where
  "at_least_one (Finite x) = (1 \<le> x)"
| "at_least_one PosInfinity = True"
| "at_least_one NegInfinity = False"
| "at_least_one NaN = False"

fun positive_integer :: "number \<Rightarrow> bool" where
  "positive_integer (Finite x) = (1 \<le> x \<and> real_of_int \<lfloor>x\<rfloor> = x)"
| "positive_integer PosInfinity = False"
| "positive_integer NegInfinity = False"
| "positive_integer NaN = False"

text \<open>
  A processor given as a function from the payloads to the way its call settles, and
  its contract: when it succeeds it returns one result for every payload it was given.
\<close>

definition contract :: "('t list \<Rightarrow> 'r settled) \<Rightarrow> bool" where
  "contract process =
     (\<forall>payloads results. process payloads = Fulfilled results \<longrightarrow>
        length results = length payloads \<and> None \<notin> set results)"

text \<open>
  What \<^verbatim>\<open>results.forEach\<close> does at one position of the array, given the job at the
  same position of the batch: nothing at a hole, one call of \<^verbatim>\<open>resolve\<close> at an element.
\<close>

definition visit :: "'r option \<times> 't InternalJob \<Rightarrow> (nat \<times> 'r JobResult) list" where
  "visit p =
     (case fst p of
        None \<Rightarrow> []
      | Some r \<Rightarrow>
          [(resolve (snd p), \<lparr> id_result = id_job (snd p), result = Some r, error = None \<rparr>)])"

text \<open>
  What remains for the runtime to do without any further call of \<^verbatim>\<open>submitJob\<close> or
  \<^verbatim>\<open>shutdown\<close>: the scheduled timeouts fire, and then every call of the processor
  that is waited for settles, as \<open>process\<close> says.
\<close>

definition due :: "('t, 'r) MicroBatchProcessor \<Rightarrow> ('t, 'r) event list" where
  "due this = map (\<lambda>p. TimerFires (fst p)) (timeouts this)"

definition settlements ::
  "('t list \<Rightarrow> 'r settled) \<Rightarrow> ('t, 'r) MicroBatchProcessor \<Rightarrow> ('t, 'r) event list" where
  "settlements process this =
     map (\<lambda>p. Settles (fst p) (process (map payload (snd p)))) (awaiting this)"

definition quiesce ::
  "('t list \<Rightarrow> 'r settled) \<Rightarrow> ('t, 'r) MicroBatchProcessor \<Rightarrow> ('t, 'r) MicroBatchProcessor" where
  "quiesce process this =
     run (run this (due this)) (settlements process (run this (due this)))"

section \<open>Invariants of the runs\<close>

text \<open>The scheduled timeouts are the one \<^verbatim>\<open>batchTimer\<close> holds, if it holds one.\<close>

definition timer_inv :: "('t, 'r) MicroBatchProcessor \<Rightarrow> bool" where
  "timer_inv this =
     (map fst (timeouts this) = (case batchTimer this of None \<Rightarrow> [] | Some t \<Rightarrow> [t]))"

text \<open>A timeout is scheduled only while jobs are queued.\<close>

definition timer_needed :: "('t, 'r) MicroBatchProcessor \<Rightarrow> bool" where
  "timer_needed this = (timeouts this \<noteq> [] \<longrightarrow> pendingJobs this \<noteq> [])"

text \<open>While jobs are queued a timeout is scheduled (for a positive integer batch size).\<close>

definition timer_covers :: "('t, 'r) MicroBatchProcessor \<Rightarrow> bool" where
  "timer_covers this = (pendingJobs this \<noteq> [] \<longrightarrow> timeouts this \<noteq> [])"

text \<open>
  The queue is shorter than the batch size, and empty once shutdown has begun (for a
  batch size of at least 1).
\<close>

definition below_size :: "('t, 'r) MicroBatchProcessor \<Rightarrow> bool" where
  "below_size this =
     (\<not> length_ge (length (pendingJobs this)) (batchSize this)
      \<and> (isShuttingDown this \<longrightarrow> pendingJobs this = []))"

text \<open>A \<^verbatim>\<open>shutdown\<close> waits or has returned only when the flag is set.\<close>

definition shutdown_inv :: "('t, 'r) MicroBatchProcessor \<Rightarrow> bool" where
  "shutdown_inv this =
     (shutdownAwaiting this \<noteq> [] \<or> 0 < shutdownCompleted this \<longrightarrow> isShuttingDown this)"

text \<open>
  The jobs the coordinator holds are jobs it created, the promise of the job created at
  position \<open>h\<close> is \<open>h\<close>, every resolution made so far went to a promise that exists
  and carried the identifier of its job, and the calls waited for are distinct calls
  that have been made.
\<close>

definition wf_jobs :: "('t, 'r) MicroBatchProcessor \<Rightarrow> bool" where
  "wf_jobs this =
     (\<forall>job \<in> set (pendingJobs this @ in_flight this).
        resolve job < length (submitted this) \<and> submitted this ! resolve job = job)"

definition wf_submitted :: "('t, 'r) MicroBatchProcessor \<Rightarrow> bool" where
  "wf_submitted this = (\<forall>h < length (submitted this). resolve (submitted this ! h) = h)"

definition wf_resolved :: "('t, 'r) MicroBatchProcessor \<Rightarrow> bool" where
  "wf_resolved this =
     (\<forall>p \<in> set (resolved this).
        fst p < length (submitted this) \<and> id_result (snd p) = id_job (submitted this ! fst p))"

definition wf_calls :: "('t, 'r) MicroBatchProcessor \<Rightarrow> bool" where
  "wf_calls this =
     (distinct (map fst (awaiting this)) \<and> (\<forall>c \<in> set (map fst (awaiting this)). c < length (calls this)))"

text \<open>
  Every promise created so far is in exactly one place: with a queued job, with a job
  whose batch is with the processor, or resolved, once.
\<close>

definition accounted :: "('t, 'r) MicroBatchProcessor \<Rightarrow> bool" where
  "accounted this =
     (mset (map resolve (pendingJobs this)) + mset (map resolve (in_flight this))
        + mset (map fst (resolved this)) = mset [0..<length (submitted this)])"

text \<open>
  The promises of the jobs the coordinator holds are distinct, and none of them has been
  resolved.
\<close>

definition held_inv :: "('t, 'r) MicroBatchProcessor \<Rightarrow> bool" where
  "held_inv this =
     (distinct (map resolve (pendingJobs this @ in_flight this))
      \<and> (\<forall>p \<in> set (resolved this). fst p \<notin> resolve ` set (pendingJobs this @ in_flight this)))"

text \<open>The call a \<^verbatim>\<open>shutdown\<close> waits for has not settled.\<close>

definition awaited_inv :: "('t, 'r) MicroBatchProcessor \<Rightarrow> bool" where
  "awaited_inv this = (set (shutdownAwaiting this) \<subseteq> fst ` set (awaiting this))"

text \<open>
  Once shutdown has begun no timeout is scheduled, and the call a \<^verbatim>\<open>shutdown\<close> waits
  for is the last call made (for a batch size of at least 1).
\<close>

definition closing_inv :: "('t, 'r) MicroBatchProcessor \<Rightarrow> bool" where
  "closing_inv this =
     ((isShuttingDown this \<longrightarrow> timeouts this = [])
      \<and> (\<forall>c \<in> set (shutdownAwaiting this). Suc c = length (calls this)))"

text \<open>The coordinator no longer holds the \<^verbatim>\<open>resolve\<close> function of promise \<open>h\<close>.\<close>

definition released :: "nat \<Rightarrow> ('t, 'r) MicroBatchProcessor \<Rightarrow> bool" where
  "released h this =
     (h < length (submitted this) \<and> h \<notin> resolve ` set (pendingJobs this @ in_flight this))"

section \<open>The branches of \<^verbatim>\<open>submitJob\<close>\<close>

text \<open>
  The internal job \<^verbatim>\<open>submitJob\<close> creates, the coordinator after the \<^verbatim>\<open>push\<close>, and
  the coordinator after \<^verbatim>\<open>setTimeout\<close>.
\<close>

definition internalJob :: "'t Job \<Rightarrow> ('t, 'r) MicroBatchProcessor \<Rightarrow> 't InternalJob" where
  "internalJob job this =
     \<lparr> id_job = id_job job, payload = payload job, resolve = length (submitted this) \<rparr>"

definition pushed :: "'t Job \<Rightarrow> ('t, 'r) MicroBatchProcessor \<Rightarrow> ('t, 'r) MicroBatchProcessor" where
  "pushed job this =
     this\<lparr> pendingJobs := pendingJobs this @ [internalJob job this],
           submitted := submitted this @ [internalJob job this] \<rparr>"

definition armed :: "('t, 'r) MicroBatchProcessor \<Rightarrow> ('t, 'r) MicroBatchProcessor" where
  "armed this =
     this\<lparr> batchTimer := Some (nextTimeout this),
           timeouts := timeouts this @ [(nextTimeout this, batchFrequency this)],
           nextTimeout := Suc (nextTimeout this) \<rparr>"

text \<open>
  The queue that a dispatch cycle started by an event finds at extraction time:
  \<^verbatim>\<open>submitJob\<close> pushes the job it accepts before it starts a cycle, the callback of a
  timeout and \<^verbatim>\<open>shutdown\<close> start one on the queue as it is.
\<close>

definition queue_at_extraction ::
  "('t, 'r) MicroBatchProcessor \<Rightarrow> ('t, 'r) event \<Rightarrow> 't InternalJob list" where
  "queue_at_extraction this e =
     pendingJobs this @
       (case e of
          Submit job \<Rightarrow> if isShuttingDown this then [] else [internalJob job this]
        | _ \<Rightarrow> [])"

section \<open>Example runs\<close>

text \<open>
  A coordinator with a batch size of 2 and a frequency of 5 seconds, as in the test
  suite, and two jobs with payloads 1 and 2: the new coordinator, the coordinator with
  the first job queued, with both jobs extracted and their batch with the processor,
  and after the first job alone has been drained by \<^verbatim>\<open>shutdown\<close> and resolved.
\<close>

definition size_two :: "BatchingConfig option" where
  "size_two = Some \<lparr> batchSize_cfg = Some (Finite 2), frequencyMs = Some (Finite 5000) \<rparr>"

definition job1 :: "nat Job" where
  "job1 = \<lparr> id_job = ''1'', payload = 1 \<rparr>"

definition job2 :: "nat Job" where
  "job2 = \<lparr> id_job = ''2'', payload = 2 \<rparr>"

definition idle :: "(nat, nat) MicroBatchProcessor" where
  "idle = run (constructor size_two) []"

definition one_queued :: "(nat, nat) MicroBatchProcessor" where
  "one_queued = run (constructor size_two) [Submit job1]"

definition two_in_flight :: "(nat, nat) MicroBatchProcessor" where
  "two_in_flight = run (constructor size_two) [Submit job1, Submit job2]"

definition drained :: "(nat, nat) MicroBatchProcessor" where
  "drained = run (constructor size_two) [Submit job1, Shutdown, Settles 0 (Fulfilled [Some 1])]"

text \<open>
  A third job; the coordinator after both jobs have been dispatched, the third has been
  submitted and \<^verbatim>\<open>shutdown\<close> has been called; and a coordinator with a batch size of
  2.5 after the three jobs have been submitted.
\<close>

definition job3 :: "nat Job" where
  "job3 = \<lparr> id_job = ''3'', payload = 3 \<rparr>"

definition draining :: "(nat, nat) MicroBatchProcessor" where
  "draining = run (constructor size_two) [Submit job1, Submit job2, Submit job3, Shutdown]"

definition size_two_and_a_half :: "BatchingConfig option" where
  "size_two_and_a_half = Some \<lparr> batchSize_cfg = Some (Finite (5 / 2)), frequencyMs = None \<rparr>"

definition stuck :: "(nat, nat) MicroBatchProcessor" where
  "stuck = run (constructor size_two_and_a_half) [Submit job1, Submit job2, Submit job3]"

text \<open>The mock processor of the test suite: it squares every payload.\<close>

definition squares :: "nat list \<Rightarrow> nat settled" where
  "squares payloads = Fulfilled (map (\<lambda>x. Some (x * x)) payloads)"

section \<open>Basic facts\<close>

lemma clearBatchTimer_fields [simp]:
  "pendingJobs (clearBatchTimer this) = pendingJobs this"
  "isShuttingDown (clearBatchTimer this) = isShuttingDown this"
  "batchSize (clearBatchTimer this) = batchSize this"
  "batchFrequency (clearBatchTimer this) = batchFrequency this"
  "batchTimer (clearBatchTimer this) = None"
  "nextTimeout (clearBatchTimer this) = nextTimeout this"
  "submitted (clearBatchTimer this) = submitted this"
  "calls (clearBatchTimer this) = calls this"
  "awaiting (clearBatchTimer this) = awaiting this"
  "resolved (clearBatchTimer this) = resolved this"
  "shutdownAwaiting (clearBatchTimer this) = shutdownAwaiting this"
  "shutdownCompleted (clearBatchTimer this) = shutdownCompleted this"
  by (simp_all add: clearBatchTimer_def split: option.split)

lemma timeouts_clearBatchTimer:
  "timeouts (clearBatchTimer this) =
     (case batchTimer this of None \<Rightarrow> timeouts this
      | Some t \<Rightarrow> filter (\<lambda>p. fst p \<noteq> t) (timeouts this))"
  by (simp add: clearBatchTimer_def split: option.split)

lemma processBatch_fields [simp]:
  "pendingJobs (processBatch this) =
     drop (deleteCount (batchSize this) (length (pendingJobs this))) (pendingJobs this)"
  "isShuttingDown (processBatch this) = isShuttingDown this"
  "batchSize (processBatch this) = batchSize this"
  "batchFrequency (processBatch this) = batchFrequency this"
  "batchTimer (processBatch this) = None"
  "timeouts (processBatch this) = timeouts (clearBatchTimer this)"
  "nextTimeout (processBatch this) = nextTimeout this"
  "submitted (processBatch this) = submitted this"
  "calls (processBatch this) =
     calls this @ [map payload (take (deleteCount (batchSize this) (length (pendingJobs this))) (pendingJobs this))]"
  "awaiting (processBatch this) =
     awaiting this @ [(length (calls this),
        take (deleteCount (batchSize this) (length (pendingJobs this))) (pendingJobs this))]"
  "resolved (processBatch this) = resolved this"
  "shutdownAwaiting (processBatch this) = shutdownAwaiting this"
  "shutdownCompleted (processBatch this) = shutdownCompleted this"
  by (simp_all add: processBatch_def Let_def)

lemma run_Nil [simp]: "run this [] = this"
  by (simp add: run_def)

lemma run_snoc [simp]: "run this (es @ [e]) = step (run this es) e"
  by (simp add: run_def)

lemma run_Cons: "run this (e # es) = run (step this e) es"
  by (simp add: run_def)

lemma run_append: "run this (es @ es') = run (run this es) es'"
  by (simp add: run_def)

lemma honoured_snoc [simp]:
  "honoured this (es @ [e]) = (honoured this es \<and> honours (run this es) e)"
  by (induction es arbitrary: this) (auto simp: run_Cons)

lemma timer_inv_clear: "timer_inv this \<Longrightarrow> timeouts (clearBatchTimer this) = []"
  by (auto simp: timer_inv_def timeouts_clearBatchTimer split: option.splits)

lemma timer_inv_constructor: "timer_inv (constructor config)"
  by (simp add: timer_inv_def constructor_def)

lemma timer_inv_processBatch: "timer_inv this \<Longrightarrow> timer_inv (processBatch this)"
  by (simp add: timer_inv_def timer_inv_clear[unfolded timer_inv_def])

lemma timer_inv_step: "timer_inv this \<Longrightarrow> timer_inv (step this e)"
proof (cases e)
  case (Submit job)
  assume "timer_inv this"
  then show ?thesis using Submit
    by (auto simp: submitJob_def Let_def timer_inv_def timeouts_clearBatchTimer split: option.splits)
next
  case Shutdown
  assume "timer_inv this"
  then show ?thesis using Shutdown
    by (auto simp: shutdown_def Let_def timer_inv_def timeouts_clearBatchTimer split: option.splits)
next
  case (TimerFires t)
  assume "timer_inv this"
  then show ?thesis using TimerFires
    by (auto simp: timer_inv_def timeouts_clearBatchTimer split: option.splits)
next
  case (Settles c outcome)
  assume "timer_inv this"
  then show ?thesis using Settles
    by (auto simp: timer_inv_def processBatch_resume_def split: option.splits)
qed

lemma timer_inv_run: "timer_inv this \<Longrightarrow> timer_inv (run this es)"
  by (induction es rule: rev_induct) (simp_all add: timer_inv_step)

lemma in_flight_clearBatchTimer [simp]: "in_flight (clearBatchTimer this) = in_flight this"
  by (simp add: in_flight_def)

lemma in_flight_processBatch [simp]:
  "in_flight (processBatch this) =
     in_flight this @ take (deleteCount (batchSize this) (length (pendingJobs this))) (pendingJobs this)"
  by (simp add: in_flight_def)

lemma processBatch_resume_None:
  "map_of (awaiting this) c = None \<Longrightarrow> processBatch_resume c outcome this = this"
  by (simp add: processBatch_resume_def)

lemma processBatch_resume_fields:
  assumes "map_of (awaiting this) c = Some jobs"
  shows "pendingJobs (processBatch_resume c outcome this) = pendingJobs this"
    and "isShuttingDown (processBatch_resume c outcome this) = isShuttingDown this"
    and "batchSize (processBatch_resume c outcome this) = batchSize this"
    and "batchFrequency (processBatch_resume c outcome this) = batchFrequency this"
    and "batchTimer (processBatch_resume c outcome this) = batchTimer this"
    and "timeouts (processBatch_resume c outcome this) = timeouts this"
    and "nextTimeout (processBatch_resume c outcome this) = nextTimeout this"
    and "submitted (processBatch_resume c outcome this) = submitted this"
    and "calls (processBatch_resume c outcome this) = calls this"
    and "awaiting (processBatch_resume c outcome this) = filter (\<lambda>p. fst p \<noteq> c) (awaiting this)"
    and "resolved (processBatch_resume c outcome this) = resolved this @ resolutions jobs outcome"
    and "shutdownAwaiting (processBatch_resume c outcome this) = filter (\<lambda>c'. c' \<noteq> c) (shutdownAwaiting this)"
    and "shutdownCompleted (processBatch_resume c outcome this) =
           shutdownCompleted this + length (filter (\<lambda>c'. c' = c) (shutdownAwaiting this))"
  using assms by (simp_all add: processBatch_resume_def)

lemma concat_remove_key:
  "distinct (map fst xs) \<Longrightarrow> map_of xs c = Some ys \<Longrightarrow>
     mset (concat (map snd xs)) = mset ys + mset (concat (map snd (filter (\<lambda>p. fst p \<noteq> c) xs)))"
proof (induction xs)
  case Nil
  then show ?case by simp
next
  case (Cons x xs)
  show ?case
  proof (cases "fst x = c")
    case True
    with Cons.prems have ys: "snd x = ys" by (cases x) simp
    from True Cons.prems have "c \<notin> fst ` set xs" by simp
    then have "filter (\<lambda>p. fst p \<noteq> c) xs = xs"
      by (induction xs) auto
    with True ys show ?thesis by simp
  next
    case False
    with Cons.prems have "map_of xs c = Some ys" by (cases x) simp
    with Cons False show ?thesis by simp
  qed
qed

lemma set_concat_filter_subset:
  "set (concat (map snd (filter P xs))) \<subseteq> set (concat (map snd xs))"
  by auto

lemma map_of_in_concat:
  "map_of xs c = Some ys \<Longrightarrow> set ys \<subseteq> set (concat (map snd xs))"
  by (auto dest!: map_of_SomeD)

lemma fst_resolve [simp]:
  "fst (resolve_result p) = resolve (snd p)"
  "fst (resolve_error e job) = resolve job"
  by (simp_all add: resolve_result_def resolve_error_def)

lemma handles_zip:
  "map (\<lambda>p. resolve (snd p)) (zip xs ys) = map resolve (take (length xs) ys)"
proof (induction xs arbitrary: ys)
  case Nil
  then show ?case by simp
next
  case (Cons x xs)
  then show ?case by (cases ys) simp_all
qed

lemma forEach_results_visits:
  "fst (forEach_results results jobs) = concat (map visit (zip results jobs))"
proof (induction results jobs rule: forEach_results.induct)
  case (2 results jobs)
  then show ?case by (cases jobs) (simp_all add: visit_def)
next
  case (4 r results job jobs)
  then show ?case by (simp add: visit_def resolve_result_def)
qed simp_all

lemma forEach_results_throws:
  "snd (forEach_results results jobs) = (\<exists>ro \<in> set (drop (length jobs) results). ro \<noteq> None)"
proof (induction results jobs rule: forEach_results.induct)
  case (2 results jobs)
  then show ?case by (cases jobs) simp_all
qed simp_all

lemma resolutions_Fulfilled:
  "resolutions jobs (Fulfilled results) =
     concat (map visit (zip results jobs)) @
     (if \<exists>ro \<in> set (drop (length jobs) results). ro \<noteq> None
      then map (resolve_error undefined_resolve) jobs else [])"
  by (simp add: forEach_results_visits forEach_results_throws)

lemma resolutions_Fulfilled_within:
  "length results \<le> length jobs \<Longrightarrow>
     resolutions jobs (Fulfilled results) = concat (map visit (zip results jobs))"
  by (simp add: resolutions_Fulfilled del: resolutions.simps)

lemma visit_dense:
  "None \<notin> set results \<Longrightarrow>
     concat (map visit (zip results jobs)) =
       map (\<lambda>p. (resolve (snd p),
              \<lparr> id_result = id_job (snd p), result = fst p, error = None \<rparr>)) (zip results jobs)"
proof (induction results arbitrary: jobs)
  case Nil
  then show ?case by simp
next
  case (Cons ro results)
  then show ?case by (cases jobs; cases ro) (simp_all add: visit_def)
qed

lemma handles_resolutions_honoured:
  assumes "\<And>results. outcome = Fulfilled results \<Longrightarrow>
             length results = length jobs \<and> None \<notin> set results"
  shows "map fst (resolutions jobs outcome) = map resolve jobs"
proof (cases outcome)
  case (Fulfilled results)
  with assms have l: "length results = length jobs" and d: "None \<notin> set results" by simp_all
  have "resolutions jobs (Fulfilled results) = concat (map visit (zip results jobs))"
    by (rule resolutions_Fulfilled_within) (simp add: l)
  with d have "map fst (resolutions jobs (Fulfilled results)) =
      map (\<lambda>p. resolve (snd p)) (zip results jobs)"
    by (simp add: visit_dense comp_def del: resolutions.simps)
  with l Fulfilled show ?thesis by (simp add: handles_zip del: resolutions.simps)
next
  case (Rejected e)
  then show ?thesis by (simp add: comp_def)
qed

lemma visit_wf:
  "p \<in> set (visit (ro, job)) \<Longrightarrow> fst p = resolve job \<and> id_result (snd p) = id_job job"
  by (cases ro) (simp_all add: visit_def)

lemma resolutions_wf:
  assumes "p \<in> set (resolutions jobs outcome)"
  shows "\<exists>job \<in> set jobs. fst p = resolve job \<and> id_result (snd p) = id_job job"
proof (cases outcome)
  case (Fulfilled results)
  with assms have "p \<in> set (concat (map visit (zip results jobs)))
      \<or> p \<in> set (map (resolve_error undefined_resolve) jobs)"
    by (auto simp: resolutions_Fulfilled simp del: resolutions.simps split: if_splits)
  then show ?thesis
  proof
    assume "p \<in> set (concat (map visit (zip results jobs)))"
    then obtain ro job where z: "(ro, job) \<in> set (zip results jobs)" and "p \<in> set (visit (ro, job))"
      by auto
    with visit_wf[of p ro job] set_zip_rightD[OF z] show ?thesis by blast
  next
    assume "p \<in> set (map (resolve_error undefined_resolve) jobs)"
    then show ?thesis by (auto simp: resolve_error_def)
  qed
next
  case (Rejected e)
  with assms show ?thesis by (auto simp: resolve_error_def)
qed

lemma in_flight_update [simp]:
  "in_flight (this\<lparr> isShuttingDown := b \<rparr>) = in_flight this"
  "in_flight (this\<lparr> batchTimer := bt \<rparr>) = in_flight this"
  "in_flight (this\<lparr> timeouts := ts \<rparr>) = in_flight this"
  "in_flight (this\<lparr> nextTimeout := n \<rparr>) = in_flight this"
  "in_flight (this\<lparr> shutdownAwaiting := sa \<rparr>) = in_flight this"
  "in_flight (this\<lparr> shutdownCompleted := sc \<rparr>) = in_flight this"
  "in_flight (this\<lparr> pendingJobs := q \<rparr>) = in_flight this"
  "in_flight (this\<lparr> submitted := sub \<rparr>) = in_flight this"
  by (simp_all add: in_flight_def)

lemma submitJob_rejects:
  "isShuttingDown this \<Longrightarrow> submitJob job this = (Inl (Error shutdown_message), this)"
  by (simp add: submitJob_def)

lemma submitJob_accepts:
  "\<not> isShuttingDown this \<Longrightarrow>
     submitJob job this =
       (Inr (length (submitted this)),
        if length_ge (Suc (length (pendingJobs this))) (batchSize this) then processBatch (pushed job this)
        else if batchTimer this = None then armed (pushed job this)
        else pushed job this)"
  by (simp add: submitJob_def Let_def pushed_def armed_def internalJob_def)

lemma shutdown_cases:
  "shutdown this =
     (if pendingJobs this = []
      then (clearBatchTimer (this\<lparr> isShuttingDown := True \<rparr>))
             \<lparr> shutdownCompleted := Suc (shutdownCompleted this) \<rparr>
      else (processBatch (this\<lparr> isShuttingDown := True \<rparr>))
             \<lparr> shutdownAwaiting := shutdownAwaiting this @ [length (calls this)] \<rparr>)"
  by (simp add: shutdown_def Let_def processBatch_def clearBatchTimer_def split: option.split)

lemma pushed_fields [simp]:
  "pendingJobs (pushed job this) = pendingJobs this @ [internalJob job this]"
  "submitted (pushed job this) = submitted this @ [internalJob job this]"
  "isShuttingDown (pushed job this) = isShuttingDown this"
  "batchSize (pushed job this) = batchSize this"
  "batchFrequency (pushed job this) = batchFrequency this"
  "batchTimer (pushed job this) = batchTimer this"
  "timeouts (pushed job this) = timeouts this"
  "nextTimeout (pushed job this) = nextTimeout this"
  "calls (pushed job this) = calls this"
  "awaiting (pushed job this) = awaiting this"
  "resolved (pushed job this) = resolved this"
  "shutdownAwaiting (pushed job this) = shutdownAwaiting this"
  "shutdownCompleted (pushed job this) = shutdownCompleted this"
  "in_flight (pushed job this) = in_flight this"
  by (simp_all add: pushed_def)

lemma armed_fields [simp]:
  "pendingJobs (armed this) = pendingJobs this"
  "submitted (armed this) = submitted this"
  "isShuttingDown (armed this) = isShuttingDown this"
  "batchSize (armed this) = batchSize this"
  "batchFrequency (armed this) = batchFrequency this"
  "batchTimer (armed this) = Some (nextTimeout this)"
  "timeouts (armed this) = timeouts this @ [(nextTimeout this, batchFrequency this)]"
  "nextTimeout (armed this) = Suc (nextTimeout this)"
  "calls (armed this) = calls this"
  "awaiting (armed this) = awaiting this"
  "resolved (armed this) = resolved this"
  "shutdownAwaiting (armed this) = shutdownAwaiting this"
  "shutdownCompleted (armed this) = shutdownCompleted this"
  "in_flight (armed this) = in_flight this"
  by (simp_all add: armed_def)

lemma resolve_internalJob [simp]:
  "resolve (internalJob job this) = length (submitted this)"
  "id_job (internalJob job this) = id_job job"
  "payload (internalJob job this) = payload job"
  by (simp_all add: internalJob_def)

text \<open>The events, case by case, for an invariant.\<close>

lemma step_cases [case_names rejected dispatched armed queued shutdown_idle shutdown_drain
    timer_stale timer_fires settle_unknown settle]:
  assumes "\<And>job. e = Submit job \<Longrightarrow> isShuttingDown this \<Longrightarrow> P this"
    and "\<And>job. e = Submit job \<Longrightarrow> \<not> isShuttingDown this \<Longrightarrow>
           length_ge (Suc (length (pendingJobs this))) (batchSize this) \<Longrightarrow>
           P (processBatch (pushed job this))"
    and "\<And>job. e = Submit job \<Longrightarrow> \<not> isShuttingDown this \<Longrightarrow>
           \<not> length_ge (Suc (length (pendingJobs this))) (batchSize this) \<Longrightarrow>
           batchTimer this = None \<Longrightarrow> P (armed (pushed job this))"
    and "\<And>job. e = Submit job \<Longrightarrow> \<not> isShuttingDown this \<Longrightarrow>
           \<not> length_ge (Suc (length (pendingJobs this))) (batchSize this) \<Longrightarrow>
           batchTimer this \<noteq> None \<Longrightarrow> P (pushed job this)"
    and "e = Shutdown \<Longrightarrow> pendingJobs this = [] \<Longrightarrow>
           P ((clearBatchTimer (this\<lparr> isShuttingDown := True \<rparr>))
                \<lparr> shutdownCompleted := Suc (shutdownCompleted this) \<rparr>)"
    and "e = Shutdown \<Longrightarrow> pendingJobs this \<noteq> [] \<Longrightarrow>
           P ((processBatch (this\<lparr> isShuttingDown := True \<rparr>))
                \<lparr> shutdownAwaiting := shutdownAwaiting this @ [length (calls this)] \<rparr>)"
    and "\<And>t. e = TimerFires t \<Longrightarrow> t \<notin> fst ` set (timeouts this) \<Longrightarrow> P this"
    and "\<And>t. e = TimerFires t \<Longrightarrow> t \<in> fst ` set (timeouts this) \<Longrightarrow>
           P (processBatch (this\<lparr> timeouts := filter (\<lambda>p. fst p \<noteq> t) (timeouts this) \<rparr>))"
    and "\<And>c outcome. e = Settles c outcome \<Longrightarrow> map_of (awaiting this) c = None \<Longrightarrow> P this"
    and "\<And>c outcome jobs. e = Settles c outcome \<Longrightarrow> map_of (awaiting this) c = Some jobs \<Longrightarrow>
           P (processBatch_resume c outcome this)"
  shows "P (step this e)"
proof (cases e)
  case (Submit job)
  with assms(1-4)[of job] show ?thesis
    by (cases "isShuttingDown this") (simp_all add: submitJob_rejects submitJob_accepts)
next
  case Shutdown
  with assms(5,6) show ?thesis
    by (simp add: shutdown_cases)
next
  case (TimerFires t)
  with assms(7,8)[of t] show ?thesis by simp
next
  case (Settles c outcome)
  with assms(9)[of c outcome] assms(10)[of c outcome] show ?thesis
    by (cases "map_of (awaiting this) c") (simp_all add: processBatch_resume_None)
qed

lemma wf_jobs_update [simp]:
  "wf_jobs (this\<lparr> isShuttingDown := b \<rparr>) = wf_jobs this"
  "wf_jobs (this\<lparr> timeouts := ts \<rparr>) = wf_jobs this"
  "wf_jobs (this\<lparr> shutdownAwaiting := sa \<rparr>) = wf_jobs this"
  "wf_jobs (this\<lparr> shutdownCompleted := sc \<rparr>) = wf_jobs this"
  "wf_jobs (clearBatchTimer this) = wf_jobs this"
  "wf_jobs (armed this) = wf_jobs this"
  by (simp_all add: wf_jobs_def)

lemma wf_jobs_processBatch: "wf_jobs this \<Longrightarrow> wf_jobs (processBatch this)"
  by (auto simp: wf_jobs_def dest: in_set_dropD in_set_takeD)

lemma wf_jobs_pushed: "wf_jobs this \<Longrightarrow> wf_jobs (pushed job this)"
  by (auto simp: wf_jobs_def nth_append intro: less_SucI)

lemma wf_jobs_resume:
  assumes "wf_jobs this" "map_of (awaiting this) c = Some jobs"
  shows "wf_jobs (processBatch_resume c outcome this)"
proof -
  have "set (in_flight (processBatch_resume c outcome this)) \<subseteq> set (in_flight this)"
    unfolding in_flight_def processBatch_resume_fields(10)[OF assms(2)]
    by (rule set_concat_filter_subset)
  with assms(1) show ?thesis
    by (auto simp: wf_jobs_def processBatch_resume_fields[OF assms(2)])
qed

lemma wf_jobs_step: "wf_jobs this \<Longrightarrow> wf_jobs (step this e)"
  by (induction rule: step_cases)
     (simp_all add: wf_jobs_processBatch wf_jobs_pushed wf_jobs_resume)

lemma wf_resolved_update [simp]:
  "wf_resolved (this\<lparr> isShuttingDown := b \<rparr>) = wf_resolved this"
  "wf_resolved (this\<lparr> timeouts := ts \<rparr>) = wf_resolved this"
  "wf_resolved (this\<lparr> shutdownAwaiting := sa \<rparr>) = wf_resolved this"
  "wf_resolved (this\<lparr> shutdownCompleted := sc \<rparr>) = wf_resolved this"
  "wf_resolved (clearBatchTimer this) = wf_resolved this"
  "wf_resolved (armed this) = wf_resolved this"
  "wf_resolved (processBatch this) = wf_resolved this"
  by (simp_all add: wf_resolved_def)

lemma wf_resolved_pushed: "wf_resolved this \<Longrightarrow> wf_resolved (pushed job this)"
  by (auto simp: wf_resolved_def nth_append intro: less_SucI)

lemma wf_resolved_resume:
  assumes "wf_jobs this" "wf_resolved this" "map_of (awaiting this) c = Some jobs"
  shows "wf_resolved (processBatch_resume c outcome this)"
proof -
  have sub: "set jobs \<subseteq> set (in_flight this)"
    unfolding in_flight_def using assms(3) by (rule map_of_in_concat)
  have "fst p < length (submitted this) \<and> id_result (snd p) = id_job (submitted this ! fst p)"
    if "p \<in> set (resolutions jobs outcome)" for p
  proof -
    from resolutions_wf[OF that] obtain job where
      j: "job \<in> set jobs" "fst p = resolve job" "id_result (snd p) = id_job job" by blast
    with sub assms(1) show ?thesis by (auto simp: wf_jobs_def)
  qed
  with assms(2) show ?thesis
    by (auto simp: wf_resolved_def processBatch_resume_fields[OF assms(3)])
qed

lemma wf_resolved_step:
  assumes "wf_jobs this" "wf_resolved this"
  shows "wf_resolved (step this e)"
  using assms
  by (induction rule: step_cases) (simp_all add: wf_resolved_pushed wf_resolved_resume)

lemma wf_calls_update [simp]:
  "wf_calls (this\<lparr> isShuttingDown := b \<rparr>) = wf_calls this"
  "wf_calls (this\<lparr> timeouts := ts \<rparr>) = wf_calls this"
  "wf_calls (this\<lparr> shutdownAwaiting := sa \<rparr>) = wf_calls this"
  "wf_calls (this\<lparr> shutdownCompleted := sc \<rparr>) = wf_calls this"
  "wf_calls (clearBatchTimer this) = wf_calls this"
  "wf_calls (armed this) = wf_calls this"
  "wf_calls (pushed job this) = wf_calls this"
  by (simp_all add: wf_calls_def)

lemma wf_calls_processBatch: "wf_calls this \<Longrightarrow> wf_calls (processBatch this)"
  by (fastforce simp: wf_calls_def less_Suc_eq)

lemma wf_calls_resume:
  assumes "wf_calls this" "map_of (awaiting this) c = Some jobs"
  shows "wf_calls (processBatch_resume c outcome this)"
  using assms(1)
  by (auto simp: wf_calls_def processBatch_resume_fields[OF assms(2)] distinct_map_filter)

lemma wf_calls_step: "wf_calls this \<Longrightarrow> wf_calls (step this e)"
  by (induction rule: step_cases) (simp_all add: wf_calls_processBatch wf_calls_resume)

lemma accounted_update [simp]:
  "accounted (this\<lparr> isShuttingDown := b \<rparr>) = accounted this"
  "accounted (this\<lparr> timeouts := ts \<rparr>) = accounted this"
  "accounted (this\<lparr> shutdownAwaiting := sa \<rparr>) = accounted this"
  "accounted (this\<lparr> shutdownCompleted := sc \<rparr>) = accounted this"
  "accounted (clearBatchTimer this) = accounted this"
  "accounted (armed this) = accounted this"
  by (simp_all add: accounted_def)

lemma accounted_processBatch: "accounted this \<Longrightarrow> accounted (processBatch this)"
proof -
  assume a: "accounted this"
  let ?n = "deleteCount (batchSize this) (length (pendingJobs this))"
  have "mset (map resolve (pendingJobs this)) =
          mset (map resolve (take ?n (pendingJobs this))) + mset (map resolve (drop ?n (pendingJobs this)))"
    by (metis append_take_drop_id map_append mset_append)
  with a show ?thesis by (simp add: accounted_def ac_simps)
qed

lemma accounted_pushed: "accounted this \<Longrightarrow> accounted (pushed job this)"
  by (simp add: accounted_def)

lemma accounted_resume:
  assumes "wf_calls this" "accounted this" "map_of (awaiting this) c = Some jobs"
    and "honours this (Settles c outcome)"
  shows "accounted (processBatch_resume c outcome this)"
proof -
  let ?this' = "processBatch_resume c outcome this"
  from assms(1) have "distinct (map fst (awaiting this))" by (simp add: wf_calls_def)
  from concat_remove_key[OF this assms(3)]
  have "mset (in_flight this) = mset jobs + mset (in_flight ?this')"
    unfolding in_flight_def processBatch_resume_fields(10)[OF assms(3)] .
  from arg_cong[OF this, of "image_mset resolve"]
  have split: "mset (map resolve (in_flight this)) =
      mset (map resolve jobs) + mset (map resolve (in_flight ?this'))"
    by simp
  have handles: "map fst (resolutions jobs outcome) = map resolve jobs"
    using assms(3,4) by (intro handles_resolutions_honoured) simp
  have "mset (map fst (resolved ?this')) = mset (map fst (resolved this)) + mset (map resolve jobs)"
    unfolding processBatch_resume_fields(11)[OF assms(3)] map_append mset_append handles ..
  moreover have "pendingJobs ?this' = pendingJobs this" "submitted ?this' = submitted this"
    by (rule processBatch_resume_fields[OF assms(3)])+
  moreover note split
  moreover from assms(2) have "mset (map resolve (pendingJobs this)) + mset (map resolve (in_flight this))
        + mset (map fst (resolved this)) = mset [0..<length (submitted this)]"
    unfolding accounted_def .
  ultimately show ?thesis
    unfolding accounted_def by (simp only: ac_simps)
qed

lemma accounted_step:
  assumes "wf_calls this" "accounted this" "honours this e"
  shows "accounted (step this e)"
  using assms
  by (induction rule: step_cases)
     (simp_all add: accounted_processBatch accounted_pushed accounted_resume)

lemma constructor_fields [simp]:
  "pendingJobs (constructor config) = []"
  "isShuttingDown (constructor config) = False"
  "batchSize (constructor config) = or_default (opt_batchSize config) (Finite 10)"
  "batchFrequency (constructor config) = or_default (opt_frequencyMs config) (Finite 1000)"
  "batchTimer (constructor config) = None"
  "timeouts (constructor config) = []"
  "nextTimeout (constructor config) = 0"
  "submitted (constructor config) = []"
  "calls (constructor config) = []"
  "awaiting (constructor config) = []"
  "resolved (constructor config) = []"
  "shutdownAwaiting (constructor config) = []"
  "shutdownCompleted (constructor config) = 0"
  by (simp_all add: constructor_def)

lemma wf_jobs_run: "wf_jobs (run (constructor config) es)"
proof (induction es rule: rev_induct)
  case Nil
  show ?case by (simp add: wf_jobs_def in_flight_def)
next
  case (snoc e es)
  then show ?case by (simp add: wf_jobs_step)
qed

lemma wf_resolved_run: "wf_resolved (run (constructor config) es)"
proof (induction es rule: rev_induct)
  case Nil
  show ?case by (simp add: wf_resolved_def)
next
  case (snoc e es)
  then show ?case by (simp add: wf_resolved_step wf_jobs_run)
qed

lemma wf_calls_run: "wf_calls (run (constructor config) es)"
proof (induction es rule: rev_induct)
  case Nil
  show ?case by (simp add: wf_calls_def)
next
  case (snoc e es)
  then show ?case by (simp add: wf_calls_step)
qed

lemma accounted_run:
  "honoured (constructor config) es \<Longrightarrow> accounted (run (constructor config) es)"
proof (induction es rule: rev_induct)
  case Nil
  show ?case by (simp add: accounted_def in_flight_def)
next
  case (snoc e es)
  then show ?case by (simp add: accounted_step wf_calls_run)
qed

lemma timer_inv_reachable: "timer_inv (run (constructor config) es)"
  by (rule timer_inv_run) (rule timer_inv_constructor)

lemma batchSize_step [simp]: "batchSize (step this e) = batchSize this"
  by (induction rule: step_cases) (simp_all add: processBatch_resume_fields)

lemma batchSize_run [simp]: "batchSize (run this es) = batchSize this"
  by (induction es rule: rev_induct) simp_all

lemma positive_integer_at_least_one: "positive_integer n \<Longrightarrow> at_least_one n"
  by (cases n) simp_all

lemma at_least_one_not_ge_0 [simp]: "at_least_one n \<Longrightarrow> \<not> length_ge 0 n"
  by (cases n) simp_all

lemma deleteCount_all:
  assumes "at_least_one n" "\<not> length_ge len n"
  shows "deleteCount n len = len"
proof (cases n)
  case (Finite x)
  with assms have "1 \<le> x" "real len < x" by simp_all
  then have "int len \<le> \<lfloor>x\<rfloor>" by (simp add: le_floor_iff)
  with \<open>1 \<le> x\<close> Finite show ?thesis by (simp add: trunc_def)
qed (use assms in simp_all)

lemma deleteCount_keeps_below:
  assumes "at_least_one n" "\<not> length_ge len n" "length_ge (Suc len) n"
  shows "\<not> length_ge (Suc len - deleteCount n (Suc len)) n"
proof (cases n)
  case (Finite x)
  with assms have x: "1 \<le> x" "real len < x" "x \<le> real len + 1" by simp_all
  then have lo: "int len \<le> \<lfloor>x\<rfloor>" by (simp add: le_floor_iff)
  from x have hi: "\<lfloor>x\<rfloor> \<le> int len + 1" by (simp add: floor_le_iff)
  from x have one: "1 \<le> \<lfloor>x\<rfloor>" by (simp add: le_floor_iff)
  show ?thesis
  proof (cases "\<lfloor>x\<rfloor> = int len")
    case True
    with one have "1 \<le> len" by simp
    with x have "1 < x" by linarith
    moreover from True x have "deleteCount n (Suc len) = len"
      using Finite by (simp add: trunc_def)
    ultimately show ?thesis using Finite by simp
  next
    case False
    with lo hi have "\<lfloor>x\<rfloor> = int len + 1" by linarith
    with x have "deleteCount n (Suc len) = Suc len"
      using Finite by (simp add: trunc_def)
    with x Finite show ?thesis by simp
  qed
qed (use assms in simp_all)

lemma deleteCount_integer_all:
  assumes "positive_integer n" "\<not> length_ge len n" "length_ge (Suc len) n"
  shows "deleteCount n (Suc len) = Suc len"
proof (cases n)
  case (Finite x)
  with assms have x: "1 \<le> x" "real_of_int \<lfloor>x\<rfloor> = x" "real len < x" "x \<le> real len + 1" by simp_all
  then have "int len < \<lfloor>x\<rfloor>" "\<lfloor>x\<rfloor> \<le> int len + 1"
    by linarith+
  then have "\<lfloor>x\<rfloor> = int len + 1" by linarith
  with x Finite show ?thesis by (simp add: trunc_def)
qed (use assms in simp_all)

lemma below_size_step:
  assumes "at_least_one (batchSize this)" "below_size this"
  shows "below_size (step this e)"
  using assms
proof (induction rule: step_cases)
  case (dispatched job)
  have "length (pendingJobs (processBatch (pushed job this))) =
          Suc (length (pendingJobs this)) - deleteCount (batchSize this) (Suc (length (pendingJobs this)))"
    by (simp del: drop_append)
  moreover from dispatched
  have "\<not> length_ge (Suc (length (pendingJobs this))
            - deleteCount (batchSize this) (Suc (length (pendingJobs this)))) (batchSize this)"
    by (intro deleteCount_keeps_below) (simp_all add: below_size_def)
  ultimately show ?case using dispatched
    by (simp add: below_size_def del: processBatch_fields(1))
next
  case shutdown_idle
  then show ?case by (cases "batchSize this") (simp_all add: below_size_def)
next
  case shutdown_drain
  then show ?case
    using deleteCount_all[of "batchSize this" "length (pendingJobs this)"]
    by (cases "batchSize this") (simp_all add: below_size_def)
next
  case (timer_fires t)
  then show ?case
    using deleteCount_all[of "batchSize this" "length (pendingJobs this)"]
    by (cases "batchSize this") (simp_all add: below_size_def)
qed (simp_all add: below_size_def processBatch_resume_fields)

lemma below_size_run:
  assumes "at_least_one (batchSize (constructor config :: ('t, 'r) MicroBatchProcessor))"
  shows "below_size (run (constructor config :: ('t, 'r) MicroBatchProcessor) es)"
proof (induction es rule: rev_induct)
  case Nil
  from assms show ?case
    by (cases "or_default (opt_batchSize config) (Finite 10)") (simp_all add: below_size_def)
next
  case (snoc e es)
  with assms show ?case by (simp add: below_size_step)
qed

lemma shutdown_inv_step: "shutdown_inv this \<Longrightarrow> shutdown_inv (step this e)"
proof (induction rule: step_cases)
  case (settle c outcome jobs)
  then show ?case
    by (auto simp: shutdown_inv_def processBatch_resume_fields filter_empty_conv)
qed (simp_all add: shutdown_inv_def)

lemma shutdown_inv_run: "shutdown_inv (run (constructor config) es)"
proof (induction es rule: rev_induct)
  case Nil
  show ?case by (simp add: shutdown_inv_def)
next
  case (snoc e es)
  then show ?case by (simp add: shutdown_inv_step)
qed

lemma timer_covers_step:
  assumes "positive_integer (batchSize this)" "below_size this" "timer_inv this" "timer_covers this"
  shows "timer_covers (step this e)"
  using assms
proof (induction rule: step_cases)
  case (dispatched job)
  then have "deleteCount (batchSize this) (Suc (length (pendingJobs this))) = Suc (length (pendingJobs this))"
    by (intro deleteCount_integer_all) (simp_all add: below_size_def)
  then show ?case by (simp add: timer_covers_def)
next
  case (queued job)
  then show ?case by (auto simp: timer_covers_def timer_inv_def)
next
  case shutdown_drain
  then show ?case
    using deleteCount_all[of "batchSize this" "length (pendingJobs this)"]
    by (simp add: timer_covers_def below_size_def positive_integer_at_least_one)
next
  case (timer_fires t)
  then show ?case
    using deleteCount_all[of "batchSize this" "length (pendingJobs this)"]
    by (simp add: timer_covers_def below_size_def positive_integer_at_least_one)
qed (simp_all add: timer_covers_def processBatch_resume_fields)

lemma timer_covers_run:
  assumes "positive_integer (batchSize (constructor config :: ('t, 'r) MicroBatchProcessor))"
  shows "timer_covers (run (constructor config :: ('t, 'r) MicroBatchProcessor) es)"
proof (induction es rule: rev_induct)
  case Nil
  show ?case by (simp add: timer_covers_def)
next
  case (snoc e es)
  with assms show ?case
    by (simp add: timer_covers_step below_size_run timer_inv_reachable positive_integer_at_least_one)
qed


lemma held_inv_update [simp]:
  "held_inv (this\<lparr> isShuttingDown := b \<rparr>) = held_inv this"
  "held_inv (this\<lparr> timeouts := ts \<rparr>) = held_inv this"
  "held_inv (this\<lparr> shutdownAwaiting := sa \<rparr>) = held_inv this"
  "held_inv (this\<lparr> shutdownCompleted := sc \<rparr>) = held_inv this"
  "held_inv (clearBatchTimer this) = held_inv this"
  "held_inv (armed this) = held_inv this"
  by (simp_all add: held_inv_def)







lemma awaited_inv_step: "awaited_inv this \<Longrightarrow> awaited_inv (step this e)"
proof (induction rule: step_cases)
  case (settle c outcome jobs)
  then show ?case
    by (auto simp: awaited_inv_def processBatch_resume_fields)
qed (auto simp: awaited_inv_def)

lemma awaited_inv_run: "awaited_inv (run (constructor config) es)"
proof (induction es rule: rev_induct)
  case Nil
  show ?case by (simp add: awaited_inv_def)
next
  case (snoc e es)
  then show ?case by (simp add: awaited_inv_step)
qed

lemma closing_inv_step:
  assumes "at_least_one (batchSize this)" "below_size this" "shutdown_inv this" "timer_inv this"
    and "closing_inv this"
  shows "closing_inv (step this e)"
proof -
  have idle: "shutdownAwaiting this = []" if "\<not> isShuttingDown this"
    using that assms(3) by (auto simp: shutdown_inv_def)
  have quiet: "timeouts this = []" "pendingJobs this = []" if "isShuttingDown this"
    using that assms(2,5) by (auto simp: closing_inv_def below_size_def)
  from assms(4,5) idle quiet show ?thesis
  proof (induction rule: step_cases)
    case (timer_fires t)
    then show ?case by (cases "isShuttingDown this") (auto simp: closing_inv_def)
  next
    case shutdown_idle
    then show ?case by (auto simp: closing_inv_def timer_inv_clear[of this, unfolded timer_inv_def]
          timeouts_clearBatchTimer timer_inv_def split: option.splits)
  next
    case shutdown_drain
    then show ?case
      by (cases "isShuttingDown this")
         (auto simp: closing_inv_def timeouts_clearBatchTimer timer_inv_def split: option.splits)
  next
    case (settle c outcome jobs)
    then show ?case by (auto simp: closing_inv_def processBatch_resume_fields)
  qed (auto simp: closing_inv_def)
qed

lemma closing_inv_run:
  assumes "at_least_one (batchSize (constructor config :: ('t, 'r) MicroBatchProcessor))"
  shows "closing_inv (run (constructor config :: ('t, 'r) MicroBatchProcessor) es)"
proof (induction es rule: rev_induct)
  case Nil
  show ?case by (simp add: closing_inv_def)
next
  case (snoc e es)
  with assms show ?case
    by (simp add: closing_inv_step below_size_run shutdown_inv_run timer_inv_reachable)
qed

section \<open>The example runs, evaluated\<close>

lemmas evaluate =
  run_def constructor_def submitJob_def shutdown_def processBatch_def clearBatchTimer_def
  processBatch_resume_def resolve_result_def resolve_error_def Let_def trunc_def
  size_two_def size_two_and_a_half_def job1_def job2_def job3_def

lemma two_in_flight_eq:
  "two_in_flight =
     \<lparr> pendingJobs = [], isShuttingDown = False, batchSize = Finite 2,
       batchFrequency = Finite 5000, batchTimer = None, timeouts = [], nextTimeout = 1,
       submitted = [\<lparr> id_job = ''1'', payload = 1, resolve = 0 \<rparr>,
                    \<lparr> id_job = ''2'', payload = 2, resolve = 1 \<rparr>],
       calls = [[1, 2]],
       awaiting = [(0, [\<lparr> id_job = ''1'', payload = 1, resolve = 0 \<rparr>,
                        \<lparr> id_job = ''2'', payload = 2, resolve = 1 \<rparr>])],
       resolved = [], shutdownAwaiting = [], shutdownCompleted = 0 \<rparr>"
  by (simp add: two_in_flight_def evaluate)

lemma one_queued_eq:
  "one_queued =
     \<lparr> pendingJobs = [\<lparr> id_job = ''1'', payload = 1, resolve = 0 \<rparr>], isShuttingDown = False,
       batchSize = Finite 2, batchFrequency = Finite 5000, batchTimer = Some 0,
       timeouts = [(0, Finite 5000)], nextTimeout = 1,
       submitted = [\<lparr> id_job = ''1'', payload = 1, resolve = 0 \<rparr>],
       calls = [], awaiting = [], resolved = [], shutdownAwaiting = [], shutdownCompleted = 0 \<rparr>"
  by (simp add: one_queued_def evaluate)

lemma drained_eq:
  "drained =
     \<lparr> pendingJobs = [], isShuttingDown = True, batchSize = Finite 2,
       batchFrequency = Finite 5000, batchTimer = None, timeouts = [], nextTimeout = 1,
       submitted = [\<lparr> id_job = ''1'', payload = 1, resolve = 0 \<rparr>],
       calls = [[1]], awaiting = [],
       resolved = [(0, \<lparr> id_result = ''1'', result = Some 1, error = None \<rparr>)],
       shutdownAwaiting = [], shutdownCompleted = 1 \<rparr>"
  by (simp add: drained_def evaluate)

lemma draining_eq:
  "draining =
     \<lparr> pendingJobs = [], isShuttingDown = True, batchSize = Finite 2,
       batchFrequency = Finite 5000, batchTimer = None, timeouts = [], nextTimeout = 2,
       submitted = [\<lparr> id_job = ''1'', payload = 1, resolve = 0 \<rparr>,
                    \<lparr> id_job = ''2'', payload = 2, resolve = 1 \<rparr>,
                    \<lparr> id_job = ''3'', payload = 3, resolve = 2 \<rparr>],
       calls = [[1, 2], [3]],
       awaiting = [(0, [\<lparr> id_job = ''1'', payload = 1, resolve = 0 \<rparr>,
                        \<lparr> id_job = ''2'', payload = 2, resolve = 1 \<rparr>]),
                   (1, [\<lparr> id_job = ''3'', payload = 3, resolve = 2 \<rparr>])],
       resolved = [], shutdownAwaiting = [1], shutdownCompleted = 0 \<rparr>"
  by (simp add: draining_def evaluate)

lemma stuck_eq:
  "stuck =
     \<lparr> pendingJobs = [\<lparr> id_job = ''3'', payload = 3, resolve = 2 \<rparr>], isShuttingDown = False,
       batchSize = Finite (5 / 2), batchFrequency = Finite 1000, batchTimer = None,
       timeouts = [], nextTimeout = 1,
       submitted = [\<lparr> id_job = ''1'', payload = 1, resolve = 0 \<rparr>,
                    \<lparr> id_job = ''2'', payload = 2, resolve = 1 \<rparr>,
                    \<lparr> id_job = ''3'', payload = 3, resolve = 2 \<rparr>],
       calls = [[1, 2]],
       awaiting = [(0, [\<lparr> id_job = ''1'', payload = 1, resolve = 0 \<rparr>,
                        \<lparr> id_job = ''2'', payload = 2, resolve = 1 \<rparr>])],
       resolved = [], shutdownAwaiting = [], shutdownCompleted = 0 \<rparr>"
  by (simp add: stuck_def evaluate)

lemma contract_squares: "contract squares"
  by (auto simp: contract_def squares_def)

section \<open>Construction\<close>

text \<open>
  C9. The constructor replaces an absent or falsy \<^verbatim>\<open>batchSize\<close> (\<open>0\<close>, \<open>-0\<close>,
  \<open>NaN\<close>) by 10 and an absent or falsy \<^verbatim>\<open>frequencyMs\<close> by 1000. Every other number
  is kept as it is, be it negative, fractional or infinite; the constructor has no
  failing branch.
\<close>

theorem constructor_defaults:
  "batchSize (constructor config :: ('t, 'r) MicroBatchProcessor) =
     (case config of
        None \<Rightarrow> Finite 10
      | Some c \<Rightarrow>
          (case batchSize_cfg c of
             None \<Rightarrow> Finite 10
           | Some n \<Rightarrow> if n = Finite 0 \<or> n = NaN then Finite 10 else n))
   \<and> batchFrequency (constructor config :: ('t, 'r) MicroBatchProcessor) =
     (case config of
        None \<Rightarrow> Finite 1000
      | Some c \<Rightarrow>
          (case frequencyMs c of
             None \<Rightarrow> Finite 1000
           | Some n \<Rightarrow> if n = Finite 0 \<or> n = NaN then Finite 1000 else n))"
proof -
  have d: "or_default v d = (case v of None \<Rightarrow> d | Some n \<Rightarrow> if n = Finite 0 \<or> n = NaN then d else n)"
    for v d
  proof (cases v)
    case None
    then show ?thesis by simp
  next
    case (Some n)
    then show ?thesis by (cases n) simp_all
  qed
  show ?thesis
    by (cases config) (simp_all add: constructor_def d)
qed

section \<open>Submission\<close>

text \<open>
  C6. While the shutdown flag is set, \<^verbatim>\<open>submitJob\<close> throws the shutdown error and
  leaves the coordinator as it was: no promise is created, so there is nothing that
  could be resolved for the submission. Otherwise it returns a new promise and appends
  the job at the back of the queue; when that fills a batch, the dispatch cycle runs
  on the queue with the job appended.
\<close>

theorem submitJob_shutdown_gate:
  "(isShuttingDown this \<longrightarrow>
      submitJob job this =
        (Inl (Error ''Cannot submit job - the system is shutting down.''), this))
   \<and> (\<not> isShuttingDown this \<longrightarrow>
        fst (submitJob job this) = Inr (length (submitted this))
        \<and> submitted (snd (submitJob job this)) =
            submitted this @
              [\<lparr> id_job = id_job job, payload = payload job, resolve = length (submitted this) \<rparr>]
        \<and> (if length_ge (Suc (length (pendingJobs this))) (batchSize this)
           then snd (submitJob job this) =
                  processBatch
                    (this\<lparr> pendingJobs := pendingJobs this @
                             [\<lparr> id_job = id_job job, payload = payload job,
                                resolve = length (submitted this) \<rparr>],
                           submitted := submitted this @
                             [\<lparr> id_job = id_job job, payload = payload job,
                                resolve = length (submitted this) \<rparr>] \<rparr>)
           else pendingJobs (snd (submitJob job this)) =
                  pendingJobs this @
                    [\<lparr> id_job = id_job job, payload = payload job,
                       resolve = length (submitted this) \<rparr>]))"
proof (cases "isShuttingDown this")
  case True
  then show ?thesis by (simp add: submitJob_rejects shutdown_message_def)
next
  case False
  then show ?thesis
    by (simp add: submitJob_accepts pushed_def internalJob_def armed_def)
qed

theorem submitJob_shutdown_gate_witness:
  "isShuttingDown (shutdown two_in_flight)
   \<and> submitJob \<lparr> id_job = ''3'', payload = 3 \<rparr> (shutdown two_in_flight) =
       (Inl (Error ''Cannot submit job - the system is shutting down.''), shutdown two_in_flight)
   \<and> \<not> isShuttingDown two_in_flight
   \<and> fst (submitJob \<lparr> id_job = ''3'', payload = 3 \<rparr> two_in_flight) = Inr 2
   \<and> pendingJobs (snd (submitJob \<lparr> id_job = ''3'', payload = 3 \<rparr> two_in_flight)) =
       [\<lparr> id_job = ''3'', payload = 3, resolve = 2 \<rparr>]"
proof -
  have a: "isShuttingDown (shutdown two_in_flight)"
    by (simp add: two_in_flight_eq shutdown_def clearBatchTimer_def Let_def)
  have b: "\<not> isShuttingDown two_in_flight"
    by (simp add: two_in_flight_eq)
  show ?thesis
    using a b submitJob_shutdown_gate[of "shutdown two_in_flight" "\<lparr> id_job = ''3'', payload = 3 \<rparr>"]
      submitJob_shutdown_gate[of two_in_flight "\<lparr> id_job = ''3'', payload = 3 \<rparr>"]
    by (simp add: two_in_flight_eq)
qed

section \<open>The outcome of a batch\<close>

text \<open>
  C5. When the call of the processor for a batch fails, every job extracted into the
  batch is resolved, in order, with a result that carries its identifier, no success
  value, and the failure itself when it is an \<^verbatim>\<open>Error\<close> and \<open>Error 'Unknown error'\<close>
  otherwise. The queue is left as it is, the processor is not called again, and the
  batch is no longer waited for.
\<close>

theorem processBatch_failure:
  assumes "map_of (awaiting this) c = Some jobsToProcess"
  shows "resolved (processBatch_resume c (Rejected e) this) =
           resolved this @
             map (\<lambda>job. (resolve job,
                    \<lparr> id_result = id_job job, result = None,
                       error = Some (case e of Thrown_Error err \<Rightarrow> err
                                     | Thrown_Other \<Rightarrow> Error ''Unknown error'') \<rparr>))
               jobsToProcess
         \<and> pendingJobs (processBatch_resume c (Rejected e) this) = pendingJobs this
         \<and> calls (processBatch_resume c (Rejected e) this) = calls this
         \<and> awaiting (processBatch_resume c (Rejected e) this) =
             filter (\<lambda>p. fst p \<noteq> c) (awaiting this)"
proof -
  have "as_Error e = (case e of Thrown_Error err \<Rightarrow> err | Thrown_Other \<Rightarrow> Error ''Unknown error'')"
    by (cases e) simp_all
  then show ?thesis
    by (simp add: processBatch_resume_fields[OF assms] resolve_error_def)
qed

theorem processBatch_failure_witness:
  "map_of (awaiting two_in_flight) 0 =
     Some [\<lparr> id_job = ''1'', payload = 1, resolve = 0 \<rparr>, \<lparr> id_job = ''2'', payload = 2, resolve = 1 \<rparr>]
   \<and> resolved (processBatch_resume 0 (Rejected (Thrown_Error (Error ''Processing error''))) two_in_flight) =
       [(0, \<lparr> id_result = ''1'', result = None, error = Some (Error ''Processing error'') \<rparr>),
        (1, \<lparr> id_result = ''2'', result = None, error = Some (Error ''Processing error'') \<rparr>)]
   \<and> resolved (processBatch_resume 0 (Rejected Thrown_Other) two_in_flight) =
       [(0, \<lparr> id_result = ''1'', result = None, error = Some (Error ''Unknown error'') \<rparr>),
        (1, \<lparr> id_result = ''2'', result = None, error = Some (Error ''Unknown error'') \<rparr>)]
   \<and> pendingJobs (processBatch_resume 0 (Rejected Thrown_Other) two_in_flight) = []
   \<and> calls (processBatch_resume 0 (Rejected Thrown_Other) two_in_flight) = [[1, 2]]
   \<and> awaiting (processBatch_resume 0 (Rejected Thrown_Other) two_in_flight) = []"
proof -
  have h: "map_of (awaiting two_in_flight) 0 =
     Some [\<lparr> id_job = ''1'', payload = 1, resolve = 0 \<rparr>, \<lparr> id_job = ''2'', payload = 2, resolve = 1 \<rparr>]"
    by (simp add: two_in_flight_eq)
  show ?thesis
    using h processBatch_failure[OF h, of "Thrown_Error (Error ''Processing error'')"]
      processBatch_failure[OF h, of Thrown_Other]
    by (simp add: two_in_flight_eq)
qed







section \<open>Every accepted job is resolved exactly once\<close>

lemma wf_submitted_update [simp]:
  "wf_submitted (this\<lparr> isShuttingDown := b \<rparr>) = wf_submitted this"
  "wf_submitted (this\<lparr> timeouts := ts \<rparr>) = wf_submitted this"
  "wf_submitted (this\<lparr> shutdownAwaiting := sa \<rparr>) = wf_submitted this"
  "wf_submitted (this\<lparr> shutdownCompleted := sc \<rparr>) = wf_submitted this"
  "wf_submitted (clearBatchTimer this) = wf_submitted this"
  "wf_submitted (armed this) = wf_submitted this"
  "wf_submitted (processBatch this) = wf_submitted this"
  by (simp_all add: wf_submitted_def)

lemma wf_submitted_pushed: "wf_submitted this \<Longrightarrow> wf_submitted (pushed job this)"
  by (auto simp: wf_submitted_def nth_append less_Suc_eq)

lemma wf_submitted_step: "wf_submitted this \<Longrightarrow> wf_submitted (step this e)"
  by (induction rule: step_cases)
     (simp_all add: wf_submitted_pushed, simp add: wf_submitted_def processBatch_resume_fields)

lemma wf_submitted_run: "wf_submitted (run (constructor config) es)"
proof (induction es rule: rev_induct)
  case Nil
  show ?case by (simp add: wf_submitted_def)
next
  case (snoc e es)
  then show ?case by (simp add: wf_submitted_step)
qed

lemma count_mset_map: "count (mset (map f xs)) y = length (filter (\<lambda>x. f x = y) xs)"
  by (induction xs) auto

text \<open>
  How often the promise of an accepted job has been resolved, in a state where every
  promise is accounted for.
\<close>

lemma resolution_count:
  assumes "wf_jobs this" "wf_submitted this" "accounted this" "job \<in> set (submitted this)"
  shows "length (filter (\<lambda>p. fst p = resolve job) (resolved this)) =
           (if job \<in> set (pendingJobs this) \<or> job \<in> set (in_flight this) then 0 else 1)"
proof -
  from assms(4) obtain h where h: "h < length (submitted this)" "submitted this ! h = job"
    by (auto simp: in_set_conv_nth)
  with assms(2) have rh: "resolve job = h" by (auto simp: wf_submitted_def)
  let ?P = "length (filter (\<lambda>j. resolve j = h) (pendingJobs this))"
  let ?F = "length (filter (\<lambda>j. resolve j = h) (in_flight this))"
  let ?R = "length (filter (\<lambda>p. fst p = h) (resolved this))"
  from assms(3) have "count (mset (map resolve (pendingJobs this)) + mset (map resolve (in_flight this))
        + mset (map fst (resolved this))) h = count (mset [0..<length (submitted this)]) h"
    unfolding accounted_def by (rule arg_cong)
  moreover from h(1) have "count (mset [0..<length (submitted this)]) h = 1"
    by simp
  ultimately have sum: "?P + ?F + ?R = 1"
    by (simp only: count_union count_mset_map)
  have live: "j = job" if "j \<in> set (pendingJobs this @ in_flight this)" "resolve j = h" for j
    using that assms(1) h(2) by (auto simp: wf_jobs_def)
  have P: "(0 < ?P) = (job \<in> set (pendingJobs this))"
  proof
    assume "0 < ?P"
    then obtain j where "j \<in> set (pendingJobs this)" "resolve j = h"
      by (auto simp: length_greater_0_conv filter_empty_conv simp del: length_greater_0_conv)
    with live[of j] show "job \<in> set (pendingJobs this)" by simp
  next
    assume "job \<in> set (pendingJobs this)"
    with rh show "0 < ?P" by (auto simp: filter_empty_conv)
  qed
  have F: "(0 < ?F) = (job \<in> set (in_flight this))"
  proof
    assume "0 < ?F"
    then obtain j where "j \<in> set (in_flight this)" "resolve j = h"
      by (auto simp: length_greater_0_conv filter_empty_conv simp del: length_greater_0_conv)
    with live[of j] show "job \<in> set (in_flight this)" by simp
  next
    assume "job \<in> set (in_flight this)"
    with rh show "0 < ?F" by (auto simp: filter_empty_conv)
  qed
  define p f r where "p = ?P" and "f = ?F" and "r = ?R"
  from sum P F have "p + f + r = 1" "(0 < p) = (job \<in> set (pendingJobs this))"
      "(0 < f) = (job \<in> set (in_flight this))"
    unfolding p_def f_def r_def by blast+
  then have "r = (if job \<in> set (pendingJobs this) \<or> job \<in> set (in_flight this) then 0 else 1)"
    by (cases "job \<in> set (pendingJobs this)"; cases "job \<in> set (in_flight this)") auto
  then show ?thesis unfolding r_def rh .
qed

text \<open>Letting the timers fire and the calls settle.\<close>

lemma honoured_append:
  "honoured this (es @ es') = (honoured this es \<and> honoured (run this es) es')"
  by (induction es arbitrary: this) (simp_all add: run_Cons)

lemma honoured_due: "honoured this (map (\<lambda>p. TimerFires (fst p)) ts)"
  by (induction ts arbitrary: this) simp_all

lemma submitted_timer [simp]: "submitted (step this (TimerFires t)) = submitted this"
  by simp

lemma after_due:
  assumes "timer_inv this"
  shows "timeouts (run this (due this)) = []"
    and "submitted (run this (due this)) = submitted this"
proof -
  show "timeouts (run this (due this)) = []"
  proof (cases "timeouts this")
    case Nil
    then show ?thesis by (simp add: due_def)
  next
    case (Cons p ps)
    with assms have ps: "ps = []" and bt: "batchTimer this = Some (fst p)"
      by (auto simp: timer_inv_def split: option.splits)
    with Cons show ?thesis
      by (simp add: due_def run_def timeouts_clearBatchTimer)
  qed
  show "submitted (run this (due this)) = submitted this"
    using assms
    by (cases "timeouts this") (auto simp: due_def run_def timer_inv_def split: option.splits)
qed

lemma settle_all:
  assumes "distinct (map fst (awaiting this))"
  shows "awaiting (run this (settlements process this)) = []
         \<and> pendingJobs (run this (settlements process this)) = pendingJobs this
         \<and> submitted (run this (settlements process this)) = submitted this
         \<and> (contract process \<longrightarrow> honoured this (settlements process this))"
  using assms
proof (induction "awaiting this" arbitrary: this)
  case Nil
  then show ?case by (simp add: settlements_def)
next
  case (Cons x xs)
  let ?e = "Settles (fst x) (process (map payload (snd x))) :: ('a, 'b) event"
  let ?this' = "step this ?e"
  from Cons.hyps(2) have aw: "awaiting this = x # xs" by simp
  then have m: "map_of (awaiting this) (fst x) = Some (snd x)" by simp
  from aw Cons.prems have fresh: "fst x \<notin> fst ` set xs" and d: "distinct (map fst xs)" by simp_all
  from fresh have "filter (\<lambda>p. fst p \<noteq> fst x) xs = xs"
    by (induction xs) auto
  with aw have aw': "awaiting ?this' = xs"
    by (simp add: processBatch_resume_fields(10)[OF m])
  have split: "settlements process this = ?e # settlements process ?this'"
    unfolding settlements_def aw' aw by simp
  from aw' d have "distinct (map fst (awaiting ?this'))" by simp
  from Cons.hyps(1)[OF aw'[symmetric] this]
  have IH: "awaiting (run ?this' (settlements process ?this')) = []
         \<and> pendingJobs (run ?this' (settlements process ?this')) = pendingJobs ?this'
         \<and> submitted (run ?this' (settlements process ?this')) = submitted ?this'
         \<and> (contract process \<longrightarrow> honoured ?this' (settlements process ?this'))" .
  have same: "pendingJobs ?this' = pendingJobs this" "submitted ?this' = submitted this"
    by (simp_all add: processBatch_resume_fields[OF m])
  have "honours this ?e" if "contract process"
  proof (cases "process (map payload (snd x))")
    case (Fulfilled results)
    with that have "length results = length (snd x) \<and> None \<notin> set results"
      unfolding contract_def by (metis length_map)
    with Fulfilled m show ?thesis by simp
  next
    case (Rejected e)
    then show ?thesis by simp
  qed
  with IH same show ?case
    unfolding split by (simp add: run_Cons)
qed

lemma quiesce_resolves:
  assumes "this = run (constructor config) es"
    and "honoured (constructor config) es"
    and "positive_integer (batchSize this)"
    and "contract process"
    and "job \<in> set (submitted this)"
  shows "length (filter (\<lambda>p. fst p = resolve job) (resolved (quiesce process this))) = 1"
proof -
  let ?s1 = "run this (due this)"
  let ?es2 = "es @ due this @ settlements process ?s1"
  have r1: "?s1 = run (constructor config) (es @ due this)"
    by (simp add: assms(1) run_append)
  have r2: "quiesce process this = run (constructor config) ?es2"
    by (simp add: quiesce_def run_append assms(1))
  have ti: "timer_inv this" unfolding assms(1) by (rule timer_inv_reachable)
  from assms(3) have pos: "positive_integer (batchSize (constructor config :: ('a, 'b) MicroBatchProcessor))"
    unfolding assms(1) by simp
  have "timer_covers ?s1" unfolding r1 using pos by (rule timer_covers_run)
  with after_due(1)[OF ti] have q1: "pendingJobs ?s1 = []"
    by (simp add: timer_covers_def)
  have "wf_calls ?s1" unfolding r1 by (rule wf_calls_run)
  then have "distinct (map fst (awaiting ?s1))" by (simp add: wf_calls_def)
  from settle_all[OF this, of process] assms(4) q1
  have s2: "awaiting (quiesce process this) = []" "pendingJobs (quiesce process this) = []"
      "submitted (quiesce process this) = submitted ?s1"
    and h2: "honoured ?s1 (settlements process ?s1)"
    by (simp_all add: quiesce_def)
  have "honoured (constructor config) ?es2"
    using assms(2) h2 honoured_due[of "run (constructor config) es" "timeouts this"]
    by (simp add: honoured_append run_append due_def assms(1)[symmetric] del: honoured_snoc)
  then have acc: "accounted (quiesce process this)"
    unfolding r2 by (rule accounted_run)
  from assms(5) s2(3) after_due(2)[OF ti] have mem: "job \<in> set (submitted (quiesce process this))"
    by simp
  have wj: "wf_jobs (quiesce process this)" and ws: "wf_submitted (quiesce process this)"
    unfolding r2 by (rule wf_jobs_run wf_submitted_run)+
  from resolution_count[OF wj ws acc mem] s2 show ?thesis
    by (simp add: in_flight_def)
qed

text \<open>
  C3, as the code has it. In every state the coordinator reaches while the processor
  honours its contract (a call that succeeds returns one result for every payload),
  the promise of an accepted job has not been resolved while the job is queued or its
  batch is with the processor, and has been resolved exactly once otherwise; every
  result it was resolved with carries the job's identifier. When in addition the batch
  size is a positive integer, a queued job always has a timeout scheduled for it, and
  once the scheduled timeout has fired and the calls waited for have settled, as a
  processor that honours its contract settles them, the promise has been resolved
  exactly once.
\<close>

theorem accepted_job_resolved_exactly_once:
  assumes "honoured (constructor config) es"
    and "this = run (constructor config) es"
    and "job \<in> set (submitted this)"
  shows "length (filter (\<lambda>p. fst p = resolve job) (resolved this)) =
           (if job \<in> set (pendingJobs this) \<or> job \<in> set (in_flight this) then 0 else 1)
         \<and> (\<forall>r. (resolve job, r) \<in> set (resolved this) \<longrightarrow> id_result r = id_job job)
         \<and> (positive_integer (batchSize this) \<and> job \<in> set (pendingJobs this) \<longrightarrow>
              timeouts this \<noteq> [])
         \<and> (positive_integer (batchSize this) \<and> contract process \<longrightarrow>
              length (filter (\<lambda>p. fst p = resolve job) (resolved (quiesce process this))) = 1)"
proof (intro conjI allI impI)
  show "length (filter (\<lambda>p. fst p = resolve job) (resolved this)) =
           (if job \<in> set (pendingJobs this) \<or> job \<in> set (in_flight this) then 0 else 1)"
    using assms unfolding assms(2)
    by (intro resolution_count wf_jobs_run wf_submitted_run accounted_run)
next
  fix r
  assume r: "(resolve job, r) \<in> set (resolved this)"
  from assms(3) obtain h where h: "h < length (submitted this)" "submitted this ! h = job"
    by (auto simp: in_set_conv_nth)
  with wf_submitted_run[of config es] assms(2) have "resolve job = h"
    by (auto simp: wf_submitted_def)
  with r h wf_resolved_run[of config es] assms(2) show "id_result r = id_job job"
    by (auto simp: wf_resolved_def)
next
  assume a: "positive_integer (batchSize this) \<and> job \<in> set (pendingJobs this)"
  then have "positive_integer (batchSize (constructor config :: ('a, 'b) MicroBatchProcessor))"
    unfolding assms(2) by simp
  from timer_covers_run[OF this, of es] a assms(2) show "timeouts this \<noteq> []"
    by (auto simp: timer_covers_def)
next
  assume "positive_integer (batchSize this) \<and> contract process"
  with assms show "length (filter (\<lambda>p. fst p = resolve job) (resolved (quiesce process this))) = 1"
    by (intro quiesce_resolves[of this config es]) simp_all
qed

text \<open>
  The claim C3 fails for a batch size of 2.5, which the constructor keeps: of three
  jobs submitted the first two are dispatched when the third arrives, and the third
  stays queued with no timeout scheduled. When the call for the two has settled, with
  their squares, nothing is left that would run a dispatch cycle, and the promise of the
  third job has not been resolved.
\<close>

theorem accepted_job_left_queued:
  "batchSize stuck = Finite (5 / 2)
   \<and> submitted stuck ! 2 = \<lparr> id_job = ''3'', payload = 3, resolve = 2 \<rparr>
   \<and> pendingJobs (quiesce squares stuck) = [\<lparr> id_job = ''3'', payload = 3, resolve = 2 \<rparr>]
   \<and> timeouts (quiesce squares stuck) = []
   \<and> awaiting (quiesce squares stuck) = []
   \<and> resolved (quiesce squares stuck) =
       [(0, \<lparr> id_result = ''1'', result = Some 1, error = None \<rparr>),
        (1, \<lparr> id_result = ''2'', result = Some 4, error = None \<rparr>)]"
  by (simp add: stuck_eq quiesce_def due_def settlements_def squares_def
      run_def processBatch_resume_def resolve_result_def)

theorem accepted_job_resolved_exactly_once_witness:
  "honoured (constructor size_two :: (nat, nat) MicroBatchProcessor)
     [Submit job1, Submit job2, Settles 0 (Fulfilled [Some 1, Some 4])]
   \<and> \<lparr> id_job = ''2'', payload = 2, resolve = 1 \<rparr>
       \<in> set (submitted (run (constructor size_two :: (nat, nat) MicroBatchProcessor)
            [Submit job1, Submit job2, Settles 0 (Fulfilled [Some 1, Some 4])]))
   \<and> length (filter (\<lambda>p. fst p = 1)
        (resolved (run (constructor size_two :: (nat, nat) MicroBatchProcessor)
            [Submit job1, Submit job2, Settles 0 (Fulfilled [Some 1, Some 4])]))) = 1
   \<and> honoured (constructor size_two :: (nat, nat) MicroBatchProcessor) [Submit job1]
   \<and> \<lparr> id_job = ''1'', payload = 1, resolve = 0 \<rparr> \<in> set (submitted one_queued)
   \<and> \<lparr> id_job = ''1'', payload = 1, resolve = 0 \<rparr> \<in> set (pendingJobs one_queued)
   \<and> positive_integer (batchSize one_queued) \<and> contract squares
   \<and> length (filter (\<lambda>p. fst p = 0) (resolved one_queued)) = 0
   \<and> timeouts one_queued \<noteq> []
   \<and> length (filter (\<lambda>p. fst p = 0) (resolved (quiesce squares one_queued))) = 1
   \<and> resolved (quiesce squares one_queued) =
       [(0, \<lparr> id_result = ''1'', result = Some 1, error = None \<rparr>)]"
proof -
  let ?es = "[Submit job1, Submit job2, Settles 0 (Fulfilled [Some 1, Some 4])] :: (nat, nat) event list"
  let ?s = "run (constructor size_two :: (nat, nat) MicroBatchProcessor) ?es"
  have r: "?s = processBatch_resume 0 (Fulfilled [Some 1, Some 4]) two_in_flight"
    by (simp add: two_in_flight_def run_def)
  have h: "honoured (constructor size_two :: (nat, nat) MicroBatchProcessor) ?es"
    using two_in_flight_eq by (simp add: two_in_flight_def run_def)
  have m: "\<lparr> id_job = ''2'', payload = 2, resolve = 1 \<rparr> \<in> set (submitted ?s)"
    unfolding r by (simp add: two_in_flight_eq processBatch_resume_def)
  from accepted_job_resolved_exactly_once[OF h refl m, of squares] h m
  have first: "length (filter (\<lambda>p. fst p = 1) (resolved ?s)) = 1"
    unfolding r by (simp add: two_in_flight_eq processBatch_resume_def in_flight_def)
  have h1: "honoured (constructor size_two :: (nat, nat) MicroBatchProcessor) [Submit job1]"
    by simp
  have m1: "\<lparr> id_job = ''1'', payload = 1, resolve = 0 \<rparr> \<in> set (submitted one_queued)"
    and q1: "\<lparr> id_job = ''1'', payload = 1, resolve = 0 \<rparr> \<in> set (pendingJobs one_queued)"
    and p1: "positive_integer (batchSize one_queued)"
    by (simp_all add: one_queued_eq)
  from accepted_job_resolved_exactly_once[OF h1 one_queued_def m1, of squares] q1 p1 contract_squares
  have "length (filter (\<lambda>p. fst p = 0) (resolved one_queued)) = 0
      \<and> timeouts one_queued \<noteq> []
      \<and> length (filter (\<lambda>p. fst p = 0) (resolved (quiesce squares one_queued))) = 1"
    by simp
  moreover have "resolved (quiesce squares one_queued) =
       [(0, \<lparr> id_result = ''1'', result = Some 1, error = None \<rparr>)]"
    by (simp add: one_queued_eq quiesce_def due_def settlements_def squares_def
        run_def processBatch_def clearBatchTimer_def processBatch_resume_def
        resolve_result_def Let_def trunc_def)
  ultimately show ?thesis using h m first h1 m1 q1 p1 contract_squares by blast
qed

section \<open>The trigger timer\<close>

lemma clearBatchTimer_idem: "clearBatchTimer (clearBatchTimer this) = clearBatchTimer this"
  by (simp add: clearBatchTimer_def split: option.split)

lemma clearBatchTimer_disarmed: "batchTimer this = None \<Longrightarrow> clearBatchTimer this = this"
  by (simp add: clearBatchTimer_def)

lemma submitJob_arms_when_disarmed:
  "nextTimeout (snd (submitJob job this)) \<noteq> nextTimeout this \<Longrightarrow> batchTimer this = None"
  by (cases "isShuttingDown this") (auto simp: submitJob_rejects submitJob_accepts split: if_splits)

lemma timeouts_shutdown: "timer_inv this \<Longrightarrow> timeouts (shutdown this) = []"
  by (auto simp: shutdown_cases timer_inv_def timeouts_clearBatchTimer split: option.splits)

lemma batchTimer_shutdown: "batchTimer (shutdown this) = None"
  by (simp add: shutdown_cases)

text \<open>
  C8. In every state the coordinator reaches at most one timeout is scheduled, and it is
  the one \<^verbatim>\<open>batchTimer\<close> holds. \<^verbatim>\<open>submitJob\<close> calls \<^verbatim>\<open>setTimeout\<close> only when
  \<^verbatim>\<open>batchTimer\<close> is null; after the first step of a dispatch cycle and after
  \<^verbatim>\<open>shutdown\<close> no timeout is scheduled and \<^verbatim>\<open>batchTimer\<close> is null; clearing a
  timer that is already cleared changes nothing.
\<close>

theorem one_timer_outstanding:
  assumes "this = run (constructor config) es"
  shows "length (timeouts this) \<le> 1
         \<and> map fst (timeouts this) = (case batchTimer this of None \<Rightarrow> [] | Some t \<Rightarrow> [t])
         \<and> (nextTimeout (snd (submitJob job this)) \<noteq> nextTimeout this \<longrightarrow> batchTimer this = None)
         \<and> timeouts (clearBatchTimer this) = [] \<and> batchTimer (clearBatchTimer this) = None
         \<and> timeouts (processBatch this) = [] \<and> batchTimer (processBatch this) = None
         \<and> timeouts (shutdown this) = [] \<and> batchTimer (shutdown this) = None
         \<and> (batchTimer this = None \<longrightarrow> clearBatchTimer this = this)
         \<and> clearBatchTimer (clearBatchTimer this) = clearBatchTimer this"
proof -
  have inv: "timer_inv this"
    unfolding assms by (rule timer_inv_reachable)
  then have m: "map fst (timeouts this) = (case batchTimer this of None \<Rightarrow> [] | Some t \<Rightarrow> [t])"
    by (simp add: timer_inv_def)
  from arg_cong[OF m, of length] have "length (timeouts this) \<le> 1"
    by (simp split: option.splits)
  with m inv show ?thesis
    by (simp add: timer_inv_clear timeouts_shutdown batchTimer_shutdown clearBatchTimer_idem
        clearBatchTimer_disarmed submitJob_arms_when_disarmed)
qed

theorem one_timer_outstanding_witness:
  "nextTimeout (snd (submitJob job1 idle)) \<noteq> nextTimeout idle
   \<and> batchTimer idle = None
   \<and> clearBatchTimer idle = idle
   \<and> length (timeouts one_queued) = 1
   \<and> map fst (timeouts one_queued) = [0] \<and> batchTimer one_queued = Some 0
   \<and> timeouts (clearBatchTimer one_queued) = []
   \<and> timeouts (processBatch one_queued) = []
   \<and> timeouts (shutdown one_queued) = []"
proof -
  have a: "nextTimeout (snd (submitJob job1 idle)) \<noteq> nextTimeout idle"
    by (simp add: idle_def evaluate)
  from one_timer_outstanding[OF idle_def, of job1] a
  have "batchTimer idle = None \<and> clearBatchTimer idle = idle"
    by blast
  moreover from one_timer_outstanding[OF one_queued_def, of job2]
  have "timeouts (clearBatchTimer one_queued) = []
      \<and> timeouts (processBatch one_queued) = []
      \<and> timeouts (shutdown one_queued) = []
      \<and> map fst (timeouts one_queued) = (case batchTimer one_queued of None \<Rightarrow> [] | Some t \<Rightarrow> [t])"
    by blast
  ultimately show ?thesis using a
    by (simp add: one_queued_eq)
qed

section \<open>Extraction of a batch\<close>

lemma deleteCount_le: "deleteCount n len \<le> len"
  by (cases n) simp_all

lemma deleteCount_nat: "deleteCount (Finite (real b)) len = min b len"
  by (simp add: trunc_def)

lemma deleteCount_fewer: "real len < x \<Longrightarrow> deleteCount (Finite x) len = len"
proof -
  assume a: "real len < x"
  then have "0 \<le> x" by (meson le_less_trans less_eq_real_def of_nat_0_le_iff)
  moreover from a have "int len \<le> \<lfloor>x\<rfloor>" by (simp add: le_floor_iff)
  ultimately show ?thesis by (simp add: trunc_def)
qed

lemma queue_step:
  "pendingJobs (step this e) =
     pendingJobs this @
       (case e of
          Submit job \<Rightarrow>
            if isShuttingDown this then []
            else [\<lparr> id_job = id_job job, payload = payload job, resolve = length (submitted this) \<rparr>]
        | _ \<Rightarrow> [])
   \<or> pendingJobs (step this e) =
     drop (deleteCount (batchSize this)
             (length (pendingJobs this @
               (case e of
                  Submit job \<Rightarrow>
                    if isShuttingDown this then []
                    else [\<lparr> id_job = id_job job, payload = payload job, resolve = length (submitted this) \<rparr>]
                | _ \<Rightarrow> []))))
       (pendingJobs this @
         (case e of
            Submit job \<Rightarrow>
              if isShuttingDown this then []
              else [\<lparr> id_job = id_job job, payload = payload job, resolve = length (submitted this) \<rparr>]
          | _ \<Rightarrow> []))"
proof (induction rule: step_cases)
  case (dispatched job)
  then show ?case by (simp add: internalJob_def del: drop_append)
qed (simp_all add: internalJob_def processBatch_resume_fields)

text \<open>
  C7. A dispatch cycle removes the first \<open>n\<close> entries of the queue, in their order, and
  calls the processor with exactly their payloads in that order, where \<open>n\<close> is what
  \<^verbatim>\<open>splice(0, batchSize)\<close> removes: at most the whole queue, the smaller of the batch
  size and the queue length when the batch size is a natural number, and the whole
  queue when it is shorter than the batch size. An event leaves the queue with the
  submitted job appended at the back, if one was accepted, and possibly this removal
  from the front applied to it; nothing else changes the queue.
\<close>

theorem processBatch_extracts_front:
  "pendingJobs (processBatch this) =
     drop (deleteCount (batchSize this) (length (pendingJobs this))) (pendingJobs this)
   \<and> awaiting (processBatch this) =
       awaiting this @
         [(length (calls this),
           take (deleteCount (batchSize this) (length (pendingJobs this))) (pendingJobs this))]
   \<and> calls (processBatch this) =
       calls this @
         [map payload (take (deleteCount (batchSize this) (length (pendingJobs this))) (pendingJobs this))]
   \<and> deleteCount (batchSize this) (length (pendingJobs this)) \<le> length (pendingJobs this)
   \<and> (\<forall>b. batchSize this = Finite (real b) \<longrightarrow>
          deleteCount (batchSize this) (length (pendingJobs this)) = min b (length (pendingJobs this)))
   \<and> (\<forall>x. batchSize this = Finite x \<and> real (length (pendingJobs this)) < x \<longrightarrow>
          deleteCount (batchSize this) (length (pendingJobs this)) = length (pendingJobs this))
   \<and> (\<forall>e.
        pendingJobs (step this e) =
          pendingJobs this @
            (case e of
               Submit job \<Rightarrow>
                 if isShuttingDown this then []
                 else [\<lparr> id_job = id_job job, payload = payload job, resolve = length (submitted this) \<rparr>]
             | _ \<Rightarrow> [])
        \<or> pendingJobs (step this e) =
          drop (deleteCount (batchSize this)
                  (length (pendingJobs this @
                    (case e of
                       Submit job \<Rightarrow>
                         if isShuttingDown this then []
                         else [\<lparr> id_job = id_job job, payload = payload job, resolve = length (submitted this) \<rparr>]
                     | _ \<Rightarrow> []))))
            (pendingJobs this @
              (case e of
                 Submit job \<Rightarrow>
                   if isShuttingDown this then []
                   else [\<lparr> id_job = id_job job, payload = payload job, resolve = length (submitted this) \<rparr>]
               | _ \<Rightarrow> [])))"
proof (intro conjI allI impI)
  fix e
  show "pendingJobs (step this e) =
          pendingJobs this @
            (case e of
               Submit job \<Rightarrow>
                 if isShuttingDown this then []
                 else [\<lparr> id_job = id_job job, payload = payload job, resolve = length (submitted this) \<rparr>]
             | _ \<Rightarrow> [])
        \<or> pendingJobs (step this e) =
          drop (deleteCount (batchSize this)
                  (length (pendingJobs this @
                    (case e of
                       Submit job \<Rightarrow>
                         if isShuttingDown this then []
                         else [\<lparr> id_job = id_job job, payload = payload job, resolve = length (submitted this) \<rparr>]
                     | _ \<Rightarrow> []))))
            (pendingJobs this @
              (case e of
                 Submit job \<Rightarrow>
                   if isShuttingDown this then []
                   else [\<lparr> id_job = id_job job, payload = payload job, resolve = length (submitted this) \<rparr>]
               | _ \<Rightarrow> []))"
    by (rule queue_step)
qed (simp_all add: deleteCount_le deleteCount_nat deleteCount_fewer del: deleteCount.simps)

theorem processBatch_extracts_front_witness:
  "batchSize one_queued = Finite (real 2)
   \<and> deleteCount (batchSize one_queued) (length (pendingJobs one_queued)) = 1
   \<and> pendingJobs (processBatch one_queued) = []
   \<and> awaiting (processBatch one_queued) = [(0, [\<lparr> id_job = ''1'', payload = 1, resolve = 0 \<rparr>])]
   \<and> calls (processBatch one_queued) = [[1]]"
proof -
  have b: "batchSize one_queued = Finite (real 2)" by (simp add: one_queued_eq)
  from processBatch_extracts_front[of one_queued] have
    "pendingJobs (processBatch one_queued) =
       drop (deleteCount (batchSize one_queued) (length (pendingJobs one_queued))) (pendingJobs one_queued)"
    "awaiting (processBatch one_queued) =
       awaiting one_queued @
         [(length (calls one_queued),
           take (deleteCount (batchSize one_queued) (length (pendingJobs one_queued))) (pendingJobs one_queued))]"
    "calls (processBatch one_queued) =
       calls one_queued @
         [map payload (take (deleteCount (batchSize one_queued) (length (pendingJobs one_queued))) (pendingJobs one_queued))]"
    "\<forall>b. batchSize one_queued = Finite (real b) \<longrightarrow>
          deleteCount (batchSize one_queued) (length (pendingJobs one_queued)) = min b (length (pendingJobs one_queued))"
    by blast+
  with b show ?thesis
    by (simp add: one_queued_eq trunc_def)
qed

section \<open>A dispatch cycle on an empty queue\<close>

lemma timeouts_cleared:
  "timer_inv this \<Longrightarrow> timeouts (clearBatchTimer (pushed job this)) = []"
  "timer_inv this \<Longrightarrow> timeouts (clearBatchTimer (this\<lparr> isShuttingDown := True \<rparr>)) = []"
  "timer_inv this \<Longrightarrow>
     timeouts (clearBatchTimer (this\<lparr> timeouts := filter (\<lambda>p. fst p \<noteq> t) (timeouts this) \<rparr>)) = []"
  by (auto simp: timer_inv_def timeouts_clearBatchTimer split: option.splits)

lemma timer_needed_step:
  assumes "timer_inv this" "timer_needed this"
  shows "timer_needed (step this e)"
  using assms
  by (induction rule: step_cases)
     (simp_all add: timer_needed_def timeouts_cleared processBatch_resume_fields)

lemma timer_needed_run: "timer_needed (run (constructor config) es)"
proof (induction es rule: rev_induct)
  case Nil
  show ?case by (simp add: timer_needed_def)
next
  case (snoc e es)
  then show ?case by (simp add: timer_needed_step timer_inv_reachable)
qed

lemma calls_step:
  assumes "timer_needed this"
  shows "calls (step this e) = calls this
         \<or> queue_at_extraction this e \<noteq> []
           \<and> calls (step this e) =
               calls this @
                 [map payload
                    (take (deleteCount (batchSize this) (length (queue_at_extraction this e)))
                       (queue_at_extraction this e))]"
  using assms
proof (induction rule: step_cases)
  case (timer_fires t)
  then have "pendingJobs this \<noteq> []" by (auto simp: timer_needed_def)
  with timer_fires show ?case by (simp add: queue_at_extraction_def)
qed (simp_all add: queue_at_extraction_def processBatch_resume_fields)

lemma idle_step:
  assumes "timer_needed this" "queue_at_extraction this e = []"
  shows "calls (step this e) = calls this"
    and "pendingJobs (step this e) = []"
    and "(\<forall>c outcome. e \<noteq> Settles c outcome) \<longrightarrow>
           awaiting (step this e) = awaiting this \<and> resolved (step this e) = resolved this"
proof -
  from assms(2) have q: "pendingJobs this = []" by (simp add: queue_at_extraction_def)
  with assms(1) have t: "timeouts this = []" by (simp add: timer_needed_def)
  from assms(2) have r: "isShuttingDown this" if "e = Submit job" for job
    using that by (auto simp: queue_at_extraction_def split: if_splits)
  from calls_step[OF assms(1), of e] assms(2) show "calls (step this e) = calls this" by blast
  show "pendingJobs (step this e) = []"
  proof (cases e)
    case (Submit job)
    with r[of job] q show ?thesis by (simp add: submitJob_rejects)
  next
    case Shutdown
    with q show ?thesis by (simp add: shutdown_cases)
  next
    case (TimerFires t)
    with q t show ?thesis by simp
  next
    case (Settles c outcome)
    with q show ?thesis
      by (cases "map_of (awaiting this) c")
         (simp_all add: processBatch_resume_None processBatch_resume_fields)
  qed
  show "(\<forall>c outcome. e \<noteq> Settles c outcome) \<longrightarrow>
           awaiting (step this e) = awaiting this \<and> resolved (step this e) = resolved this"
  proof (cases e)
    case (Submit job)
    with r[of job] show ?thesis by (simp add: submitJob_rejects)
  next
    case Shutdown
    with q show ?thesis by (simp add: shutdown_cases)
  next
    case (TimerFires t)
    with t show ?thesis by simp
  next
    case (Settles c outcome)
    then show ?thesis by simp
  qed
qed

text \<open>
  C2. In no run from the constructor is the processor invoked by a dispatch cycle that
  finds the queue empty. For an event of a state the coordinator reaches: when the
  queue is empty at extraction time, the processor is not called, the queue stays
  empty, and, unless the event is the settling of an earlier call, no promise is
  resolved and no further call is waited for; when the processor is called, the queue
  at extraction time holds at least one job and the call is made with the payloads
  extracted from it. While the queue is empty no timeout is scheduled that could start
  a cycle.
\<close>

theorem no_dispatch_on_empty_queue:
  assumes "this = run (constructor config) es"
  shows "(queue_at_extraction this e = [] \<longrightarrow>
            calls (step this e) = calls this
            \<and> pendingJobs (step this e) = []
            \<and> ((\<forall>c outcome. e \<noteq> Settles c outcome) \<longrightarrow>
                 awaiting (step this e) = awaiting this \<and> resolved (step this e) = resolved this))
         \<and> (calls (step this e) \<noteq> calls this \<longrightarrow>
              queue_at_extraction this e \<noteq> []
              \<and> calls (step this e) =
                  calls this @
                    [map payload
                       (take (deleteCount (batchSize this) (length (queue_at_extraction this e)))
                          (queue_at_extraction this e))])
         \<and> (pendingJobs this = [] \<longrightarrow> timeouts this = [])"
proof -
  have n: "timer_needed this" unfolding assms by (rule timer_needed_run)
  from n have "pendingJobs this = [] \<longrightarrow> timeouts this = []"
    by (auto simp: timer_needed_def)
  with idle_step[OF n, of e] calls_step[OF n, of e] show ?thesis by blast
qed

theorem no_dispatch_on_empty_queue_witness:
  "queue_at_extraction two_in_flight Shutdown = []
   \<and> calls (step two_in_flight Shutdown) = [[1, 2]]
   \<and> pendingJobs (step two_in_flight Shutdown) = []
   \<and> resolved (step two_in_flight Shutdown) = []
   \<and> timeouts two_in_flight = []
   \<and> calls (step one_queued (Submit job2)) \<noteq> calls one_queued
   \<and> queue_at_extraction one_queued (Submit job2) =
       [\<lparr> id_job = ''1'', payload = 1, resolve = 0 \<rparr>, \<lparr> id_job = ''2'', payload = 2, resolve = 1 \<rparr>]
   \<and> calls (step one_queued (Submit job2)) = [[1, 2]]"
proof -
  have a: "queue_at_extraction two_in_flight Shutdown = []"
    by (simp add: queue_at_extraction_def two_in_flight_eq)
  have b: "calls (step one_queued (Submit job2)) \<noteq> calls one_queued"
    by (simp add: one_queued_eq evaluate)
  from no_dispatch_on_empty_queue[OF two_in_flight_def, of Shutdown] a
  have "calls (step two_in_flight Shutdown) = calls two_in_flight
      \<and> pendingJobs (step two_in_flight Shutdown) = []
      \<and> resolved (step two_in_flight Shutdown) = resolved two_in_flight
      \<and> (pendingJobs two_in_flight = [] \<longrightarrow> timeouts two_in_flight = [])"
    by blast
  moreover from no_dispatch_on_empty_queue[OF one_queued_def, of "Submit job2"] b
  have "queue_at_extraction one_queued (Submit job2) \<noteq> []
      \<and> calls (step one_queued (Submit job2)) =
          calls one_queued @
            [map payload
               (take (deleteCount (batchSize one_queued)
                        (length (queue_at_extraction one_queued (Submit job2))))
                  (queue_at_extraction one_queued (Submit job2)))]"
    by blast
  ultimately show ?thesis using a b
    by (simp add: two_in_flight_eq one_queued_eq queue_at_extraction_def internalJob_def
        job2_def trunc_def)
qed

section \<open>Shutdown\<close>

lemma shutdown_drains_queue:
  assumes "at_least_one (batchSize this)" "below_size this"
  shows "pendingJobs (shutdown this) = []"
    and "pendingJobs this \<noteq> [] \<Longrightarrow>
           awaiting (shutdown this) = awaiting this @ [(length (calls this), pendingJobs this)]"
    and "pendingJobs this \<noteq> [] \<Longrightarrow>
           shutdownAwaiting (shutdown this) = shutdownAwaiting this @ [length (calls this)]"
    and "pendingJobs this \<noteq> [] \<Longrightarrow> shutdownCompleted (shutdown this) = shutdownCompleted this"
proof -
  from assms have "deleteCount (batchSize this) (length (pendingJobs this)) = length (pendingJobs this)"
    by (intro deleteCount_all) (simp_all add: below_size_def)
  then show "pendingJobs (shutdown this) = []"
    and "pendingJobs this \<noteq> [] \<Longrightarrow>
           awaiting (shutdown this) = awaiting this @ [(length (calls this), pendingJobs this)]"
    and "pendingJobs this \<noteq> [] \<Longrightarrow>
           shutdownAwaiting (shutdown this) = shutdownAwaiting this @ [length (calls this)]"
    and "pendingJobs this \<noteq> [] \<Longrightarrow> shutdownCompleted (shutdown this) = shutdownCompleted this"
    by (simp_all add: shutdown_cases)
qed

lemma shutdown_idle:
  assumes "pendingJobs this = []"
  shows "shutdownCompleted (shutdown this) = Suc (shutdownCompleted this)"
    and "calls (shutdown this) = calls this"
    and "awaiting (shutdown this) = awaiting this"
    and "shutdownAwaiting (shutdown this) = shutdownAwaiting this"
  using assms by (simp_all add: shutdown_cases)

lemma shutdownCompleted_step:
  assumes "awaited_inv this"
  shows "shutdownCompleted (step this e) =
           shutdownCompleted this +
             (case e of
                Shutdown \<Rightarrow> if pendingJobs this = [] then 1 else 0
              | Settles c outcome \<Rightarrow> length (filter (\<lambda>c'. c' = c) (shutdownAwaiting this))
              | _ \<Rightarrow> 0)"
  using assms
proof (induction rule: step_cases)
  case (settle_unknown c outcome)
  then have "c \<notin> fst ` set (awaiting this)" by (simp add: map_of_eq_None_iff)
  with settle_unknown have "c \<notin> set (shutdownAwaiting this)" by (auto simp: awaited_inv_def)
  then have "filter (\<lambda>c'. c' = c) (shutdownAwaiting this) = []"
    by (auto simp: filter_empty_conv)
  with settle_unknown show ?case by simp
qed (simp_all add: processBatch_resume_fields)

lemma resolved_count_positive:
  "h \<in> fst ` set xs \<Longrightarrow> 0 < length (filter (\<lambda>p. fst p = h) xs)"
  by (induction xs) auto

text \<open>
  C1, as the code has it, for a batch size of at least 1 and a processor that honours
  its contract. \<^verbatim>\<open>shutdown\<close> awaits only the dispatch cycle it starts itself. Called
  with an empty queue it returns at once, without calling the processor. Called with
  jobs queued it moves the whole queue into one last batch and waits for the call made
  for that batch, and for no other: the number of \<^verbatim>\<open>shutdown\<close> calls that have
  returned grows only by a \<^verbatim>\<open>shutdown\<close> on an empty queue and by the settling of a
  call that a \<^verbatim>\<open>shutdown\<close> waits for, and a call waited for has not settled yet. When
  that call settles and \<^verbatim>\<open>shutdown\<close> returns, the queue is empty, every job of the last
  batch has been resolved exactly once, and so has every other accepted job, except
  the jobs of batches that were dispatched before the last one and whose calls have
  not settled yet. In every state in which a \<^verbatim>\<open>shutdown\<close> has returned the queue is
  empty and every accepted job has been resolved exactly once or is in a batch whose
  call has not settled.
\<close>

theorem shutdown_completion:
  assumes "this = run (constructor config) es"
    and "honoured (constructor config) es"
    and "at_least_one (batchSize this)"
  shows "(pendingJobs this = [] \<longrightarrow>
            shutdownCompleted (shutdown this) = Suc (shutdownCompleted this)
            \<and> calls (shutdown this) = calls this
            \<and> awaiting (shutdown this) = awaiting this
            \<and> shutdownAwaiting (shutdown this) = shutdownAwaiting this)
         \<and> (pendingJobs this \<noteq> [] \<longrightarrow>
              pendingJobs (shutdown this) = []
              \<and> awaiting (shutdown this) = awaiting this @ [(length (calls this), pendingJobs this)]
              \<and> shutdownAwaiting (shutdown this) = [length (calls this)]
              \<and> shutdownCompleted (shutdown this) = shutdownCompleted this)
         \<and> shutdownCompleted (step this e) =
             shutdownCompleted this +
               (case e of
                  Shutdown \<Rightarrow> if pendingJobs this = [] then 1 else 0
                | Settles c' outcome' \<Rightarrow> length (filter (\<lambda>c''. c'' = c') (shutdownAwaiting this))
                | _ \<Rightarrow> 0)
         \<and> set (shutdownAwaiting this) \<subseteq> fst ` set (awaiting this)
         \<and> (c \<in> set (shutdownAwaiting this) \<and> map_of (awaiting this) c = Some jobs
              \<and> honours this (Settles c outcome) \<longrightarrow>
              shutdownCompleted this < shutdownCompleted (step this (Settles c outcome))
              \<and> pendingJobs (step this (Settles c outcome)) = []
              \<and> (\<forall>job \<in> set jobs.
                    length (filter (\<lambda>p. fst p = resolve job)
                      (resolved (step this (Settles c outcome)))) = 1)
              \<and> (\<forall>job \<in> set (submitted (step this (Settles c outcome))).
                    length (filter (\<lambda>p. fst p = resolve job)
                      (resolved (step this (Settles c outcome)))) =
                      (if job \<in> set (in_flight (step this (Settles c outcome))) then 0 else 1))
              \<and> (\<forall>p \<in> set (awaiting (step this (Settles c outcome))). fst p < c))
         \<and> (0 < shutdownCompleted this \<longrightarrow>
              pendingJobs this = []
              \<and> (\<forall>job \<in> set (submitted this).
                    length (filter (\<lambda>p. fst p = resolve job) (resolved this)) =
                      (if job \<in> set (in_flight this) then 0 else 1)))"
proof -
  from assms(3) have one: "at_least_one (batchSize (constructor config :: ('a, 'b) MicroBatchProcessor))"
    unfolding assms(1) by simp
  have below: "below_size this"
    unfolding assms(1) using one by (rule below_size_run)
  have sinv: "shutdown_inv this" unfolding assms(1) by (rule shutdown_inv_run)
  have ainv: "awaited_inv this" unfolding assms(1) by (rule awaited_inv_run)
  have cinv: "closing_inv this" unfolding assms(1) using one by (rule closing_inv_run)
  have wfc: "wf_calls this" unfolding assms(1) by (rule wf_calls_run)
  have wfj: "wf_jobs this" unfolding assms(1) by (rule wf_jobs_run)
  have emptied: "pendingJobs this = []" if "isShuttingDown this"
    using that below by (simp add: below_size_def)
  have count: "length (filter (\<lambda>p. fst p = resolve job) (resolved this)) =
      (if job \<in> set (pendingJobs this) \<or> job \<in> set (in_flight this) then 0 else 1)"
    if "job \<in> set (submitted this)" for job
    using that assms(2) unfolding assms(1)
    by (intro resolution_count wf_jobs_run wf_submitted_run accounted_run)
  have A1: "pendingJobs this = [] \<longrightarrow>
            shutdownCompleted (shutdown this) = Suc (shutdownCompleted this)
            \<and> calls (shutdown this) = calls this
            \<and> awaiting (shutdown this) = awaiting this
            \<and> shutdownAwaiting (shutdown this) = shutdownAwaiting this"
    by (simp add: shutdown_idle)
  have A2: "pendingJobs this \<noteq> [] \<longrightarrow>
              pendingJobs (shutdown this) = []
              \<and> awaiting (shutdown this) = awaiting this @ [(length (calls this), pendingJobs this)]
              \<and> shutdownAwaiting (shutdown this) = [length (calls this)]
              \<and> shutdownCompleted (shutdown this) = shutdownCompleted this"
  proof
    assume q: "pendingJobs this \<noteq> []"
    with emptied have "\<not> isShuttingDown this" by blast
    with sinv have "shutdownAwaiting this = []" by (auto simp: shutdown_inv_def)
    with shutdown_drains_queue[OF assms(3) below] q
    show "pendingJobs (shutdown this) = []
              \<and> awaiting (shutdown this) = awaiting this @ [(length (calls this), pendingJobs this)]
              \<and> shutdownAwaiting (shutdown this) = [length (calls this)]
              \<and> shutdownCompleted (shutdown this) = shutdownCompleted this"
      by simp
  qed
  have B: "shutdownCompleted (step this e) =
             shutdownCompleted this +
               (case e of
                  Shutdown \<Rightarrow> if pendingJobs this = [] then 1 else 0
                | Settles c' outcome' \<Rightarrow> length (filter (\<lambda>c''. c'' = c') (shutdownAwaiting this))
                | _ \<Rightarrow> 0)"
    using ainv by (rule shutdownCompleted_step)
  have B': "set (shutdownAwaiting this) \<subseteq> fst ` set (awaiting this)"
    using ainv by (simp add: awaited_inv_def)
  have C: "shutdownCompleted this < shutdownCompleted (step this (Settles c outcome))
              \<and> pendingJobs (step this (Settles c outcome)) = []
              \<and> (\<forall>job \<in> set jobs.
                    length (filter (\<lambda>p. fst p = resolve job)
                      (resolved (step this (Settles c outcome)))) = 1)
              \<and> (\<forall>job \<in> set (submitted (step this (Settles c outcome))).
                    length (filter (\<lambda>p. fst p = resolve job)
                      (resolved (step this (Settles c outcome)))) =
                      (if job \<in> set (in_flight (step this (Settles c outcome))) then 0 else 1))
              \<and> (\<forall>p \<in> set (awaiting (step this (Settles c outcome))). fst p < c)"
    if w: "c \<in> set (shutdownAwaiting this)" and m: "map_of (awaiting this) c = Some jobs"
      and h: "honours this (Settles c outcome)"
  proof -
    let ?this' = "step this (Settles c outcome)"
    have st: "?this' = processBatch_resume c outcome this" by simp
    have r': "?this' = run (constructor config) (es @ [Settles c outcome])"
      by (simp add: assms(1))
    have h': "honoured (constructor config) (es @ [Settles c outcome])"
      using assms(2) h by (simp add: assms(1)[symmetric])
    from w have "0 < length (filter (\<lambda>c'. c' = c) (shutdownAwaiting this))"
      by (auto simp: filter_empty_conv)
    then have c1: "shutdownCompleted this < shutdownCompleted ?this'"
      unfolding st processBatch_resume_fields(13)[OF m] by simp
    from w sinv have "isShuttingDown this" by (auto simp: shutdown_inv_def)
    with emptied have c2: "pendingJobs ?this' = []"
      unfolding st processBatch_resume_fields(1)[OF m] by simp
    have count': "length (filter (\<lambda>p. fst p = resolve job) (resolved ?this')) =
        (if job \<in> set (pendingJobs ?this') \<or> job \<in> set (in_flight ?this') then 0 else 1)"
      if "job \<in> set (submitted ?this')" for job
      using that h' unfolding r'
      by (intro resolution_count wf_jobs_run wf_submitted_run accounted_run)
    have handles: "map fst (resolutions jobs outcome) = map resolve jobs"
      using m h by (intro handles_resolutions_honoured) simp
    have c3: "length (filter (\<lambda>p. fst p = resolve job) (resolved ?this')) = 1"
      if j: "job \<in> set jobs" for job
    proof -
      from j have "job \<in> set (in_flight this)"
        using map_of_in_concat[OF m] by (auto simp: in_flight_def)
      with wfj have "job \<in> set (submitted this)"
        unfolding wf_jobs_def by (metis Un_iff nth_mem set_append)
      then have s: "job \<in> set (submitted ?this')"
        unfolding st processBatch_resume_fields(8)[OF m] .
      from j have "resolve job \<in> set (map fst (resolutions jobs outcome))"
        unfolding handles by simp
      then have "resolve job \<in> fst ` set (resolved ?this')"
        unfolding st processBatch_resume_fields(11)[OF m] by auto
      from resolved_count_positive[OF this] count'[OF s] show ?thesis
        by (simp split: if_splits)
    qed
    from cinv w have last: "Suc c = length (calls this)" by (auto simp: closing_inv_def)
    have c5: "fst p < c" if "p \<in> set (awaiting ?this')" for p
    proof -
      from that have "p \<in> set (awaiting this)" "fst p \<noteq> c"
        unfolding st processBatch_resume_fields(10)[OF m] by simp_all
      with wfc have "fst p < length (calls this)" by (auto simp: wf_calls_def)
      with last \<open>fst p \<noteq> c\<close> show ?thesis by simp
    qed
    from c1 c2 c3 c5 count' show ?thesis by simp
  qed
  have D: "0 < shutdownCompleted this \<longrightarrow>
              pendingJobs this = []
              \<and> (\<forall>job \<in> set (submitted this).
                    length (filter (\<lambda>p. fst p = resolve job) (resolved this)) =
                      (if job \<in> set (in_flight this) then 0 else 1))"
  proof
    assume "0 < shutdownCompleted this"
    with sinv have "isShuttingDown this" by (simp add: shutdown_inv_def)
    with emptied have "pendingJobs this = []" by blast
    with count show "pendingJobs this = []
              \<and> (\<forall>job \<in> set (submitted this).
                    length (filter (\<lambda>p. fst p = resolve job) (resolved this)) =
                      (if job \<in> set (in_flight this) then 0 else 1))"
      by simp
  qed
  from A1 A2 B B' C D show ?thesis by blast
qed

text \<open>
  The claim C1 fails for a batch size of 2 when two jobs have been submitted and their
  batch is still with the processor: \<^verbatim>\<open>shutdown\<close> finds the queue empty and returns,
  and neither promise has been resolved.
\<close>

theorem shutdown_completes_with_batch_in_flight:
  "shutdownCompleted two_in_flight = 0
   \<and> shutdownCompleted (shutdown two_in_flight) = 1
   \<and> submitted (shutdown two_in_flight) =
       [\<lparr> id_job = ''1'', payload = 1, resolve = 0 \<rparr>, \<lparr> id_job = ''2'', payload = 2, resolve = 1 \<rparr>]
   \<and> resolved (shutdown two_in_flight) = []"
  by (simp add: two_in_flight_eq shutdown_def clearBatchTimer_def Let_def)

theorem shutdown_completion_witness:
  "honoured (constructor size_two :: (nat, nat) MicroBatchProcessor) [Submit job1, Submit job2]
   \<and> at_least_one (batchSize two_in_flight)
   \<and> pendingJobs two_in_flight = []
   \<and> shutdownCompleted (shutdown two_in_flight) = 1
   \<and> calls (shutdown two_in_flight) = [[1, 2]]
   \<and> honoured (constructor size_two :: (nat, nat) MicroBatchProcessor) [Submit job1]
   \<and> at_least_one (batchSize one_queued)
   \<and> pendingJobs one_queued \<noteq> []
   \<and> pendingJobs (shutdown one_queued) = []
   \<and> awaiting (shutdown one_queued) = [(0, [\<lparr> id_job = ''1'', payload = 1, resolve = 0 \<rparr>])]
   \<and> shutdownAwaiting (shutdown one_queued) = [0]
   \<and> shutdownCompleted (shutdown one_queued) = 0
   \<and> honoured (constructor size_two :: (nat, nat) MicroBatchProcessor)
         [Submit job1, Submit job2, Submit job3, Shutdown]
   \<and> at_least_one (batchSize draining)
   \<and> shutdownAwaiting draining = [1]
   \<and> shutdownCompleted (step draining (Settles 0 (Fulfilled [Some 1, Some 4]))) = 0
   \<and> map_of (awaiting draining) 1 = Some [\<lparr> id_job = ''3'', payload = 3, resolve = 2 \<rparr>]
   \<and> honours draining (Settles 1 (Fulfilled [Some 9]))
   \<and> shutdownCompleted (step draining (Settles 1 (Fulfilled [Some 9]))) = 1
   \<and> pendingJobs (step draining (Settles 1 (Fulfilled [Some 9]))) = []
   \<and> length (filter (\<lambda>p. fst p = 2) (resolved (step draining (Settles 1 (Fulfilled [Some 9]))))) = 1
   \<and> map fst (awaiting (step draining (Settles 1 (Fulfilled [Some 9])))) = [0]
   \<and> honoured (constructor size_two :: (nat, nat) MicroBatchProcessor)
         [Submit job1, Shutdown, Settles 0 (Fulfilled [Some 1])]
   \<and> at_least_one (batchSize drained)
   \<and> 0 < shutdownCompleted drained
   \<and> pendingJobs drained = []
   \<and> length (filter (\<lambda>p. fst p = 0) (resolved drained)) = 1"
proof -
  have h0: "honoured (constructor size_two :: (nat, nat) MicroBatchProcessor) [Submit job1, Submit job2]"
    by simp
  have a0: "at_least_one (batchSize two_in_flight)" and e0: "pendingJobs two_in_flight = []"
    by (simp_all add: two_in_flight_eq)
  have h1: "honoured (constructor size_two :: (nat, nat) MicroBatchProcessor) [Submit job1]"
    by simp
  have a1: "at_least_one (batchSize one_queued)" and n1: "pendingJobs one_queued \<noteq> []"
    by (simp_all add: one_queued_eq)
  have h2: "honoured (constructor size_two :: (nat, nat) MicroBatchProcessor)
         [Submit job1, Submit job2, Submit job3, Shutdown]"
    by simp
  have a2: "at_least_one (batchSize draining)" and w2: "1 \<in> set (shutdownAwaiting draining)"
    and m2: "map_of (awaiting draining) 1 = Some [\<lparr> id_job = ''3'', payload = 3, resolve = 2 \<rparr>]"
    and c2: "honours draining (Settles 1 (Fulfilled [Some 9]))"
    by (simp_all add: draining_eq)
  have h3: "honoured (constructor size_two :: (nat, nat) MicroBatchProcessor)
         [Submit job1, Shutdown, Settles 0 (Fulfilled [Some 1])]"
    by (simp add: evaluate)
  have a3: "at_least_one (batchSize drained)" and c3: "0 < shutdownCompleted drained"
    by (simp_all add: drained_eq)
  from shutdown_completion[OF two_in_flight_def h0 a0] e0
  have "shutdownCompleted (shutdown two_in_flight) = Suc (shutdownCompleted two_in_flight)
      \<and> calls (shutdown two_in_flight) = calls two_in_flight"
    by blast
  moreover from shutdown_completion[OF one_queued_def h1 a1] n1
  have "pendingJobs (shutdown one_queued) = []
      \<and> awaiting (shutdown one_queued) = awaiting one_queued @ [(length (calls one_queued), pendingJobs one_queued)]
      \<and> shutdownAwaiting (shutdown one_queued) = [length (calls one_queued)]
      \<and> shutdownCompleted (shutdown one_queued) = shutdownCompleted one_queued"
    by blast
  moreover from shutdown_completion[OF draining_def h2 a2,
      of "Settles 0 (Fulfilled [Some 1, Some 4])"]
  have "shutdownCompleted (step draining (Settles 0 (Fulfilled [Some 1, Some 4]))) =
      shutdownCompleted draining + length (filter (\<lambda>c''. c'' = 0) (shutdownAwaiting draining))"
    by simp
  moreover from shutdown_completion[OF draining_def h2 a2,
      of _ 1 "[\<lparr> id_job = ''3'', payload = 3, resolve = 2 \<rparr>]" "Fulfilled [Some 9]"] w2 m2 c2
  have "shutdownCompleted draining < shutdownCompleted (step draining (Settles 1 (Fulfilled [Some 9])))
      \<and> pendingJobs (step draining (Settles 1 (Fulfilled [Some 9]))) = []
      \<and> (\<forall>job \<in> set [\<lparr> id_job = ''3'', payload = 3 :: nat, resolve = 2 \<rparr>].
            length (filter (\<lambda>p. fst p = resolve job)
              (resolved (step draining (Settles 1 (Fulfilled [Some 9]))))) = 1)
      \<and> (\<forall>p \<in> set (awaiting (step draining (Settles 1 (Fulfilled [Some 9])))). fst p < 1)"
    by blast
  moreover from shutdown_completion[OF drained_def h3 a3] c3
  have "pendingJobs drained = []
      \<and> (\<forall>job \<in> set (submitted drained).
            length (filter (\<lambda>p. fst p = resolve job) (resolved drained)) =
              (if job \<in> set (in_flight drained) then 0 else 1))"
    by blast
  moreover have "shutdownCompleted (step draining (Settles 1 (Fulfilled [Some 9]))) = 1"
    "map fst (awaiting (step draining (Settles 1 (Fulfilled [Some 9])))) = [0]"
    by (simp_all add: draining_eq processBatch_resume_def)
  ultimately show ?thesis using h0 a0 e0 h1 a1 n1 h2 a2 m2 c2 h3 a3 c3
    by (simp add: two_in_flight_eq one_queued_eq draining_eq drained_eq in_flight_def)
qed

text \<open>
  For the record: with a batch size below 1, which the constructor accepts, the single
  dispatch cycle of \<^verbatim>\<open>shutdown\<close> extracts nothing, and \<^verbatim>\<open>shutdown\<close> returns with the
  job still queued and unresolved.
\<close>

lemma shutdown_single_cycle_leaves_queue:
  "pendingJobs (run (constructor (Some \<lparr> batchSize_cfg = Some (Finite (- 1)), frequencyMs = None \<rparr>))
      [Submit job1, Settles 0 (Fulfilled []), Shutdown, Settles 1 (Fulfilled [])]
      :: (nat, nat) MicroBatchProcessor) = [\<lparr> id_job = ''1'', payload = 1, resolve = 0 \<rparr>]
   \<and> shutdownCompleted (run (constructor (Some \<lparr> batchSize_cfg = Some (Finite (- 1)), frequencyMs = None \<rparr>))
      [Submit job1, Settles 0 (Fulfilled []), Shutdown, Settles 1 (Fulfilled [])]
      :: (nat, nat) MicroBatchProcessor) = 1
   \<and> resolved (run (constructor (Some \<lparr> batchSize_cfg = Some (Finite (- 1)), frequencyMs = None \<rparr>))
      [Submit job1, Settles 0 (Fulfilled []), Shutdown, Settles 1 (Fulfilled [])]
      :: (nat, nat) MicroBatchProcessor) = []"
  by (simp add: evaluate)

section \<open>A result sequence that is too short\<close>


lemma released_update [simp]:
  "released h (this\<lparr> isShuttingDown := b \<rparr>) = released h this"
  "released h (this\<lparr> timeouts := ts \<rparr>) = released h this"
  "released h (this\<lparr> shutdownAwaiting := sa \<rparr>) = released h this"
  "released h (this\<lparr> shutdownCompleted := sc \<rparr>) = released h this"
  "released h (clearBatchTimer this) = released h this"
  "released h (armed this) = released h this"
  by (simp_all add: released_def)









end
